theory Spec2Isabelle
  imports
    Main
    "HOL-Library.Word"
    "HOL-Library.Multiset"
    "HOL-Library.Signed_Division"
    "HOL-Library.Log_Nat"
    "HOL-Library.Monad_Syntax"
begin

unbundle bit_operations_syntax

section \<open>The word source\<close>

text \<open>
  The package draws its raw words from two functions without a body in the package:
  \<^verbatim>\<open>u32()\<close> and \<^verbatim>\<open>u64()\<close> (linked to the runtime in the default build, computed from
  a fresh hash seed in the \<^verbatim>\<open>safe\<close> build). They are taken as a parameter: a record of
  two step functions on an abstract generator state. Every call of \<^verbatim>\<open>u32()\<close> or
  \<^verbatim>\<open>u64()\<close> in the source is one application of the step function, and the state is
  passed on. A function that makes no draw returns the state it was given.
\<close>

record 's source =
  u32 :: "'s \<Rightarrow> 32 word \<times> 's"
  u64 :: "'s \<Rightarrow> 64 word \<times> 's"

text \<open>
  A run-time panic is a value. \<^verbatim>\<open>Panic msg\<close> is an explicit \<^verbatim>\<open>panic(msg)\<close> of the
  source; \<open>DivideByZero\<close> and \<open>IndexOutOfRange\<close> are the run-time panics of Go's \<^verbatim>\<open>%\<close>
  with a zero divisor and of an index expression out of range; \<open>WriteBeyondSlice\<close> is
  a store through an unsafe pointer that reaches beyond the slice.
\<close>

datatype error = Panic string | DivideByZero | IndexOutOfRange | WriteBeyondSlice

text \<open>
  The outcome of a call: \<open>None\<close> when the call does not return (a rejection loop
  that never accepts), otherwise the value or the panic, with the generator state
  reached.
\<close>

type_synonym ('s, 'a) outcome = "((error + 'a) \<times> 's) option"

text \<open>The sequence of draws a step function produces from a state.\<close>

primrec draws :: "('s \<Rightarrow> 'a \<times> 's) \<Rightarrow> 's \<Rightarrow> nat \<Rightarrow> 'a \<times> 's" where
  "draws f s 0 = f s"
| "draws f s (Suc i) = f (snd (draws f s i))"

text \<open>
  Draw number \<open>k\<close> is the first one that satisfies \<open>acc\<close>.
\<close>

definition first_accepted :: "('s \<Rightarrow> 'a \<times> 's) \<Rightarrow> ('a \<Rightarrow> bool) \<Rightarrow> 's \<Rightarrow> nat \<Rightarrow> bool" where
  "first_accepted f acc s k \<longleftrightarrow>
     list_all (\<lambda>i. \<not> acc (fst (draws f s i))) [0..<k] \<and> acc (fst (draws f s k))"

section \<open>Constants\<close>

text \<open>The untyped integer constants of the package.\<close>

definition maxUint32 :: int where "maxUint32 = push_bit 32 1 - 1"
definition maxUint64 :: int where "maxUint64 = push_bit 64 1 - 1"
definition maxInt32 :: int where "maxInt32 = drop_bit 1 maxUint32"
definition maxInt64 :: int where "maxInt64 = drop_bit 1 maxUint64"

section \<open>Signed machine integers\<close>

text \<open>
  An \<^verbatim>\<open>int32\<close> or \<^verbatim>\<open>int64\<close> is a word read in two's complement by \<open>sint\<close>; the
  conversions \<^verbatim>\<open>int32(x)\<close> of a \<^verbatim>\<open>uint32\<close> and \<^verbatim>\<open>int64(x)\<close> of a \<^verbatim>\<open>uint64\<close> keep the
  bits. Go's \<^verbatim>\<open>%\<close> on signed integers truncates towards zero.
\<close>

definition srem :: "'a::len word \<Rightarrow> 'a word \<Rightarrow> 'a word" where
  "srem a b = word_of_int (sint a smod sint b)"

section \<open>Integers\<close>

definition Int31 :: "'s source \<Rightarrow> 's \<Rightarrow> 32 word \<times> 's" where
  "Int31 src s = (case u32 src s of (w, s') \<Rightarrow> (drop_bit 1 w, s'))"

definition Int63 :: "'s source \<Rightarrow> 's \<Rightarrow> 64 word \<times> 's" where
  "Int63 src s = (case u64 src s of (w, s') \<Rightarrow> (drop_bit 1 w, s'))"

definition Uint32 :: "'s source \<Rightarrow> 's \<Rightarrow> 32 word \<times> 's" where
  "Uint32 src s = u32 src s"

definition Uint64 :: "'s source \<Rightarrow> 's \<Rightarrow> 64 word \<times> 's" where
  "Uint64 src s = u64 src s"

subsection \<open>Bounded sampling\<close>

text \<open>
  The bound \<^verbatim>\<open>max\<close> of each sampler, as the source computes it in the type of \<^verbatim>\<open>n\<close>.
\<close>

definition Int31n_max :: "32 word \<Rightarrow> 32 word" where
  "Int31n_max n = word_of_int maxInt32 - srem (word_of_int maxInt32) n"

definition Int63n_max :: "64 word \<Rightarrow> 64 word" where
  "Int63n_max n = word_of_int maxInt64 - srem (word_of_int maxInt64) n"

definition Uint64nUint32n_max :: "32 word \<Rightarrow> 32 word" where
  "Uint64nUint32n_max n = word_of_int maxUint32 - word_of_int maxUint32 mod n"

definition Uint64n_max :: "64 word \<Rightarrow> 64 word" where
  "Uint64n_max n = word_of_int maxUint64 - word_of_int maxUint64 mod n"

text \<open>
  The loops \<^verbatim>\<open>for v >= max { v = ... }\<close>. Nothing bounds the number of rounds, so each
  is a partial function: \<open>None\<close> when no draw is ever accepted.
\<close>

partial_function (option) Int31n_loop ::
  "'s source \<Rightarrow> 32 word \<Rightarrow> 32 word \<Rightarrow> 's \<Rightarrow> (32 word \<times> 's) option" where
  "Int31n_loop src mx v s =
     (if mx \<le>s v then (case Int31 src s of (v', s') \<Rightarrow> Int31n_loop src mx v' s')
      else Some (v, s))"

partial_function (option) Int63n_loop ::
  "'s source \<Rightarrow> 64 word \<Rightarrow> 64 word \<Rightarrow> 's \<Rightarrow> (64 word \<times> 's) option" where
  "Int63n_loop src mx v s =
     (if mx \<le>s v then (case Int63 src s of (v', s') \<Rightarrow> Int63n_loop src mx v' s')
      else Some (v, s))"

partial_function (option) Uint64nUint32n_loop ::
  "'s source \<Rightarrow> 32 word \<Rightarrow> 32 word \<Rightarrow> 's \<Rightarrow> (32 word \<times> 's) option" where
  "Uint64nUint32n_loop src mx v s =
     (if mx \<le> v then (case u32 src s of (v', s') \<Rightarrow> Uint64nUint32n_loop src mx v' s')
      else Some (v, s))"

partial_function (option) Uint64n_loop ::
  "'s source \<Rightarrow> 64 word \<Rightarrow> 64 word \<Rightarrow> 's \<Rightarrow> (64 word \<times> 's) option" where
  "Uint64n_loop src mx v s =
     (if mx \<le> v then (case u64 src s of (v', s') \<Rightarrow> Uint64n_loop src mx v' s')
      else Some (v, s))"

definition Int31n :: "'s source \<Rightarrow> 32 word \<Rightarrow> 's \<Rightarrow> ('s, 32 word) outcome" where
  "Int31n src n s =
     (if n \<le>s 0 then Some (Inl (Panic ''fastrand.Int31n: invalid argument''), s)
      else if n AND (n - 1) = 0 then
        (case Int31 src s of (v, s') \<Rightarrow> Some (Inr (v AND (n - 1)), s'))
      else
        (let mx = Int31n_max n in
         case Int31 src s of (v, s') \<Rightarrow>
           (case Int31n_loop src mx v s' of
              None \<Rightarrow> None
            | Some (v', s'') \<Rightarrow> Some (Inr (srem v' n), s''))))"

definition Int63n :: "'s source \<Rightarrow> 64 word \<Rightarrow> 's \<Rightarrow> ('s, 64 word) outcome" where
  "Int63n src n s =
     (if n \<le>s 0 then Some (Inl (Panic ''fastrand.Int63n: invalid argument''), s)
      else if n AND (n - 1) = 0 then
        (case Int63 src s of (v, s') \<Rightarrow> Some (Inr (v AND (n - 1)), s'))
      else
        (let mx = Int63n_max n in
         case Int63 src s of (v, s') \<Rightarrow>
           (case Int63n_loop src mx v s' of
              None \<Rightarrow> None
            | Some (v', s'') \<Rightarrow> Some (Inr (srem v' n), s''))))"

text \<open>
  The unsigned samplers have no check of \<^verbatim>\<open>n\<close>. Go's \<^verbatim>\<open>%\<close> panics on a zero
  divisor, so the branch that divides by \<^verbatim>\<open>n\<close> carries that panic.
\<close>

definition Uint64nUint32n :: "'s source \<Rightarrow> 32 word \<Rightarrow> 's \<Rightarrow> ('s, 32 word) outcome" where
  "Uint64nUint32n src n s =
     (if n AND (n - 1) = 0 then
        (case u32 src s of (v, s') \<Rightarrow> Some (Inr (v AND (n - 1)), s'))
      else if n = 0 then Some (Inl DivideByZero, s)
      else
        (let mx = Uint64nUint32n_max n in
         case u32 src s of (v, s') \<Rightarrow>
           (case Uint64nUint32n_loop src mx v s' of
              None \<Rightarrow> None
            | Some (v', s'') \<Rightarrow> Some (Inr (v' mod n), s''))))"

definition Uint64n :: "'s source \<Rightarrow> 64 word \<Rightarrow> 's \<Rightarrow> ('s, 64 word) outcome" where
  "Uint64n src n s =
     (if n AND (n - 1) = 0 then
        (case u64 src s of (v, s') \<Rightarrow> Some (Inr (v AND (n - 1)), s'))
      else if n = 0 then Some (Inl DivideByZero, s)
      else
        (let mx = Uint64n_max n in
         case u64 src s of (v, s') \<Rightarrow>
           (case Uint64n_loop src mx v s' of
              None \<Rightarrow> None
            | Some (v', s'') \<Rightarrow> Some (Inr (v' mod n), s''))))"

section \<open>Filling a buffer\<close>

text \<open>
  A byte buffer is a list of bytes. In the default build \<^verbatim>\<open>putU64\<close> is one 64-bit store
  through \<^verbatim>\<open>unsafe.Pointer(&p[0])\<close>: the eight bytes go to memory in the byte order of
  the host, which is a parameter of the model. \<^verbatim>\<open>&p[0]\<close> panics on an empty slice; on
  a slice shorter than eight bytes the store reaches beyond the slice, which is an
  outcome of its own here. (The \<^verbatim>\<open>putU64\<close> of the \<^verbatim>\<open>safe\<close> build assigns to \<^verbatim>\<open>b[0]\<close>
  ... \<^verbatim>\<open>b[7]\<close> while its parameter is named \<^verbatim>\<open>p\<close>; no \<^verbatim>\<open>b\<close> is declared in the
  package, so that build has no \<^verbatim>\<open>putU64\<close> to model.)
\<close>

datatype byte_order = LittleEndian | BigEndian

definition uint64_bytes :: "byte_order \<Rightarrow> 64 word \<Rightarrow> 8 word list" where
  "uint64_bytes ord v =
     (case ord of
        LittleEndian \<Rightarrow> map (\<lambda>i. ucast (drop_bit (i * 8) v)) [0..<8]
      | BigEndian \<Rightarrow> rev (map (\<lambda>i. ucast (drop_bit (i * 8) v)) [0..<8]))"

definition putU64 :: "byte_order \<Rightarrow> 8 word list \<Rightarrow> 64 word \<Rightarrow> error + 8 word list" where
  "putU64 ord p v =
     (if p = [] then Inl IndexOutOfRange
      else if length p < 8 then Inl WriteBeyondSlice
      else Inr (uint64_bytes ord v @ drop 8 p))"

definition fill :: "8 word list \<Rightarrow> 'a::len word \<Rightarrow> 8 word list" where
  "fill p v = map (\<lambda>i. ucast (drop_bit (i * 8) v)) [0..<length p]"

function Fill :: "byte_order \<Rightarrow> 's source \<Rightarrow> 8 word list \<Rightarrow> 's \<Rightarrow> (error + 8 word list) \<times> 's" where
  "Fill ord src p s =
     (if 8 \<le> length p then
        (case u64 src s of (v, s') \<Rightarrow>
          (case putU64 ord p v of
             Inl e \<Rightarrow> (Inl e, s')
           | Inr p' \<Rightarrow>
               (case Fill ord src (drop 8 p') s' of
                  (Inl e, s'') \<Rightarrow> (Inl e, s'')
                | (Inr rest, s'') \<Rightarrow> (Inr (take 8 p' @ rest), s''))))
      else if 4 < length p then (case u64 src s of (v, s') \<Rightarrow> (Inr (fill p v), s'))
      else if 0 < length p then (case u32 src s of (v, s') \<Rightarrow> (Inr (fill p v), s'))
      else (Inr p, s))"
  by pat_completeness auto
termination
  by (relation "measure (\<lambda>(ord, src, p, s). length p)") (auto simp add: putU64_def uint64_bytes_def split: if_splits byte_order.splits)


text \<open>
  \<^verbatim>\<open>Read\<close> returns the pair \<^verbatim>\<open>(len(p), nil)\<close>; \<open>None\<close> is the \<^verbatim>\<open>nil\<close> error. The buffer
  after the call is returned with it.
\<close>

definition Read ::
  "byte_order \<Rightarrow> 's source \<Rightarrow> 8 word list \<Rightarrow> 's \<Rightarrow> (error + 8 word list \<times> int \<times> error option) \<times> 's" where
  "Read ord src p s =
     (case Fill ord src p s of
        (Inl e, s') \<Rightarrow> (Inl e, s')
      | (Inr p', s') \<Rightarrow> (Inr (p', int (length p'), None), s'))"

text \<open>
  Notions for the statements about \<^verbatim>\<open>Fill\<close>: the state after \<open>k\<close> draws, the \<open>r\<close>
  low-order bytes of a word (least significant first), the bytes of the first \<open>q\<close>
  64-bit draws as \<^verbatim>\<open>putU64\<close> stores them, and what is written into a remainder of
  \<open>r < 8\<close> bytes.
\<close>

primrec after :: "('s \<Rightarrow> 'a \<times> 's) \<Rightarrow> 's \<Rightarrow> nat \<Rightarrow> 's" where
  "after f s 0 = s"
| "after f s (Suc k) = snd (f (after f s k))"

definition low_bytes :: "nat \<Rightarrow> 'a::len word \<Rightarrow> 8 word list" where
  "low_bytes r v = map (\<lambda>i. ucast (drop_bit (i * 8) v)) [0..<r]"

definition chunks :: "byte_order \<Rightarrow> 's source \<Rightarrow> 's \<Rightarrow> nat \<Rightarrow> 8 word list" where
  "chunks ord src s q = concat (map (\<lambda>i. uint64_bytes ord (fst (draws (u64 src) s i))) [0..<q])"

definition remainder :: "'s source \<Rightarrow> nat \<Rightarrow> 's \<Rightarrow> 8 word list \<times> 's" where
  "remainder src r t =
     (if 4 < r then (low_bytes r (fst (u64 src t)), snd (u64 src t))
      else if 0 < r then (low_bytes r (fst (u32 src t)), snd (u32 src t))
      else ([], t))"


section \<open>Shuffle\<close>

text \<open>
  A slice is a list. The index \<^verbatim>\<open>i\<close> is a Go \<^verbatim>\<open>int\<close>, which holds every slice length;
  \<^verbatim>\<open>int64(i + 1)\<close> and \<^verbatim>\<open>int32(i + 1)\<close> are conversions to a word. The assignment
  \<^verbatim>\<open>s[i], s[j] = s[j], s[i]\<close> panics when an index is out of range. The two loops of
  \<^verbatim>\<open>Shuffle\<close> are two functions; the first hands the index and the slice to the second.
\<close>

definition swap :: "'a list \<Rightarrow> int \<Rightarrow> int \<Rightarrow> error + 'a list" where
  "swap xs i j =
     (if 0 \<le> i \<and> i < int (length xs) \<and> 0 \<le> j \<and> j < int (length xs)
      then Inr (xs[nat i := xs ! nat j, nat j := xs ! nat i])
      else Inl IndexOutOfRange)"

function Shuffle_loop63 :: "'s source \<Rightarrow> int \<Rightarrow> 'a list \<Rightarrow> 's \<Rightarrow> ('s, int \<times> 'a list) outcome" where
  "Shuffle_loop63 src i xs s =
     (if maxInt32 - 1 \<le> i then
        (case Int63n src (word_of_int (i + 1)) s of
           None \<Rightarrow> None
         | Some (Inl e, s') \<Rightarrow> Some (Inl e, s')
         | Some (Inr j, s') \<Rightarrow>
             (case swap xs i (sint j) of
                Inl e \<Rightarrow> Some (Inl e, s')
              | Inr xs' \<Rightarrow> Shuffle_loop63 src (i - 1) xs' s'))
      else Some (Inr (i, xs), s))"
  by pat_completeness auto
termination
  by (relation "measure (\<lambda>(src, i, xs, s). nat i)") (auto simp add: maxInt32_def maxUint32_def)

function Shuffle_loop31 :: "'s source \<Rightarrow> int \<Rightarrow> 'a list \<Rightarrow> 's \<Rightarrow> ('s, 'a list) outcome" where
  "Shuffle_loop31 src i xs s =
     (if 0 < i then
        (case Int31n src (word_of_int (i + 1)) s of
           None \<Rightarrow> None
         | Some (Inl e, s') \<Rightarrow> Some (Inl e, s')
         | Some (Inr j, s') \<Rightarrow>
             (case swap xs i (sint j) of
                Inl e \<Rightarrow> Some (Inl e, s')
              | Inr xs' \<Rightarrow> Shuffle_loop31 src (i - 1) xs' s'))
      else Some (Inr xs, s))"
  by pat_completeness auto
termination
  by (relation "measure (\<lambda>(src, i, xs, s). nat i)") auto

definition Shuffle :: "'s source \<Rightarrow> 'a list \<Rightarrow> 's \<Rightarrow> ('s, 'a list) outcome" where
  "Shuffle src xs s =
     (case Shuffle_loop63 src (int (length xs) - 1) xs s of
        None \<Rightarrow> None
      | Some (Inl e, s') \<Rightarrow> Some (Inl e, s')
      | Some (Inr (i, xs'), s') \<Rightarrow> Shuffle_loop31 src i xs' s')"

declare Shuffle_loop63.simps [simp del] Shuffle_loop31.simps [simp del]


section \<open>Floating point\<close>

text \<open>
  A finite \<^verbatim>\<open>float32\<close> or \<^verbatim>\<open>float64\<close> value is the rational number it denotes (the sign
  of a zero is not kept); a result that is not finite is \<open>None\<close>. A format has
  \<open>prec\<close> significant bits, no unit in the last place below \<open>2 ^ emin\<close>, and only values
  of magnitude below \<open>2 ^ emax\<close>.
\<close>

record fmt =
  prec :: nat
  emin :: int
  emax :: int

definition binary32 :: fmt where "binary32 = \<lparr>prec = 24, emin = - 149, emax = 128\<rparr>"
definition binary64 :: fmt where "binary64 = \<lparr>prec = 53, emin = - 1074, emax = 1024\<rparr>"

text \<open>
  \<open>flog2 x\<close> is the exponent of the largest power of two that is at most \<open>x > 0\<close>, from
  the bit lengths of numerator and denominator; \<open>rne\<close> rounds to the nearest integer,
  ties to even.
\<close>

definition flog2 :: "rat \<Rightarrow> int" where
  "flog2 x =
     (case quotient_of x of (a, b) \<Rightarrow>
        (let d = bitlen a - bitlen b in if power_int 2 d \<le> x then d else d - 1))"

definition rne :: "rat \<Rightarrow> int" where
  "rne q =
     (let f = \<lfloor>q\<rfloor>; r = q - of_int f
      in if r < 1 / 2 then f else if 1 / 2 < r then f + 1 else if even f then f else f + 1)"

text \<open>
  Rounding to a format: the unit in the last place is \<open>2 ^ e\<close> with \<open>e\<close> the exponent
  that leaves \<open>prec\<close> significant bits, or \<open>emin\<close> in the subnormal range; the value is
  rounded to the nearest multiple of it, ties to even, and overflows from \<open>2 ^ emax\<close>
  on. Every operation computes the exact result and rounds it.
\<close>

definition fl_round :: "fmt \<Rightarrow> rat \<Rightarrow> rat option" where
  "fl_round fm x =
     (if x = 0 then Some 0
      else
        (let e = max (flog2 \<bar>x\<bar> - (int (prec fm) - 1)) (emin fm);
             y = of_int (rne (x / power_int 2 e)) * power_int 2 e
         in if \<bar>y\<bar> < power_int 2 (emax fm) then Some y else None))"

definition f_of_int :: "fmt \<Rightarrow> int \<Rightarrow> rat option" where
  "f_of_int fm v = fl_round fm (of_int v)"

definition f_mul :: "fmt \<Rightarrow> rat \<Rightarrow> rat \<Rightarrow> rat option" where
  "f_mul fm a b = fl_round fm (a * b)"

definition f_add :: "fmt \<Rightarrow> rat \<Rightarrow> rat \<Rightarrow> rat option" where
  "f_add fm a b = fl_round fm (a + b)"

definition f_sub :: "fmt \<Rightarrow> rat \<Rightarrow> rat \<Rightarrow> rat option" where
  "f_sub fm a b = fl_round fm (a - b)"

text \<open>
  \<^verbatim>\<open>Float32\<close> and \<^verbatim>\<open>Float64\<close>: the masked draw is converted to the format and multiplied
  by the constant \<^verbatim>\<open>0x1.0p-24\<close> or \<^verbatim>\<open>0x1.0p-53\<close>.
\<close>

definition Float32 :: "'s source \<Rightarrow> 's \<Rightarrow> rat option \<times> 's" where
  "Float32 src s =
     (case u32 src s of (w, s') \<Rightarrow>
        (do { x \<leftarrow> f_of_int binary32 (uint (w AND (push_bit 24 1 - 1)));
              f_mul binary32 x (power_int 2 (- 24)) }, s'))"

definition Float64 :: "'s source \<Rightarrow> 's \<Rightarrow> rat option \<times> 's" where
  "Float64 src s =
     (case u64 src s of (w, s') \<Rightarrow>
        (do { x \<leftarrow> f_of_int binary64 (uint (w AND (push_bit 53 1 - 1)));
              f_mul binary64 x (power_int 2 (- 53)) }, s'))"

text \<open>
  \<^verbatim>\<open>Jitter\<close> is generic in the integer type \<^verbatim>\<open>T\<close> of \<^verbatim>\<open>v\<close>, signed or unsigned with a
  number of bits; \<open>v\<close> is its value and \<open>factor\<close> a finite \<^verbatim>\<open>float64\<close>. A Go compiler may
  fuse \<^verbatim>\<open>x*y + z\<close> into one operation with a single rounding; \<open>fused\<close> says whether
  this one does.
\<close>

datatype itype = Signed nat | Unsigned nat

fun min_of :: "itype \<Rightarrow> int" where
  "min_of (Signed n) = - (2 ^ (n - 1))"
| "min_of (Unsigned n) = 0"

fun max_of :: "itype \<Rightarrow> int" where
  "max_of (Signed n) = 2 ^ (n - 1) - 1"
| "max_of (Unsigned n) = 2 ^ n - 1"

text \<open>
  The conversion \<^verbatim>\<open>T(f)\<close> of a floating-point value to an integer type discards the
  fraction. Where \<^verbatim>\<open>T\<close> cannot hold the result, or \<open>f\<close> is not finite, the conversion
  still yields a value of \<^verbatim>\<open>T\<close>, which Go leaves to the implementation: \<open>conv\<close> is what
  the implementation yields there, a parameter of the model.
\<close>

definition f_to_int :: "(itype \<Rightarrow> rat option \<Rightarrow> int) \<Rightarrow> itype \<Rightarrow> rat option \<Rightarrow> int" where
  "f_to_int conv T x =
     (case x of
        None \<Rightarrow> conv T None
      | Some y \<Rightarrow>
          (let t = (if 0 \<le> y then \<lfloor>y\<rfloor> else \<lceil>y\<rceil>)
           in if min_of T \<le> t \<and> t \<le> max_of T then t else conv T (Some y)))"

definition Jitter ::
  "itype \<Rightarrow> (itype \<Rightarrow> rat option \<Rightarrow> int) \<Rightarrow> bool \<Rightarrow> 's source \<Rightarrow> int \<Rightarrow> rat \<Rightarrow> 's \<Rightarrow> int \<times> 's" where
  "Jitter T conv fused src v factor s =
     (case Float64 src s of (r', s') \<Rightarrow>
        (f_to_int conv T
           (do { r \<leftarrow> r';
                 a \<leftarrow> (if fused then fl_round binary64 (2 * r - 1)
                       else do { d \<leftarrow> f_mul binary64 2 r; f_sub binary64 d 1 });
                 b \<leftarrow> (if fused then fl_round binary64 (1 + factor * a)
                       else do { c \<leftarrow> f_mul binary64 factor a; f_add binary64 1 c });
                 fv \<leftarrow> f_of_int binary64 v;
                 f_mul binary64 fv b }), s'))"

section \<open>Notions used in the statements\<close>

text \<open>
  \<open>m\<close> is the largest multiple of \<open>n\<close> that does not exceed \<open>b\<close>.
\<close>

definition largest_multiple_upto :: "nat \<Rightarrow> nat \<Rightarrow> nat \<Rightarrow> bool" where
  "largest_multiple_upto n b m \<longleftrightarrow> n dvd m \<and> m \<le> b \<and> b < m + n"

text \<open>
  A word source for examples: it hands out the words of a list in order (the low half
  of a word for a 32-bit draw) and zeros once the list is used up.
\<close>

definition replay :: "64 word list source" where
  "replay =
     \<lparr>u32 = (\<lambda>s. case s of [] \<Rightarrow> (0, []) | w # ws \<Rightarrow> (ucast w, ws)),
      u64 = (\<lambda>s. case s of [] \<Rightarrow> (0, []) | w # ws \<Rightarrow> (w, ws))\<rparr>"

text \<open>A word source that yields the word 0 at every draw.\<close>

definition zeros :: "unit source" where
  "zeros = \<lparr>u32 = (\<lambda>s. (0, s)), u64 = (\<lambda>s. (0, s))\<rparr>"

section \<open>Words, signed and unsigned\<close>

lemma pow2_and_pred: "(2 ^ k :: 'a::len word) AND (2 ^ k - 1) = 0"
  by (rule bit_eqI) (auto simp add: bit_simps simp flip: mask_eq_exp_minus_1)

lemma sint_of_int_in_range:
  "- (2 ^ (LENGTH('a) - Suc 0)) \<le> k \<Longrightarrow> k < 2 ^ (LENGTH('a) - Suc 0) \<Longrightarrow>
   sint (word_of_int k :: 'a::len word) = k"
  by (simp add: sint_sbintrunc' signed_take_bit_int_eq_self)

lemma sint_pow2: "k < LENGTH('a) - 1 \<Longrightarrow> sint (2 ^ k :: 'a::len word) = 2 ^ k"
proof -
  assume k: "k < LENGTH('a) - 1"
  have "(2::int) ^ k < 2 ^ (LENGTH('a) - Suc 0)"
    using k by (simp add: power_strict_increasing)
  moreover have "- (2 ^ (LENGTH('a) - Suc 0)) \<le> (2::int) ^ k"
    by (rule order_trans [of _ 0]) simp_all
  ultimately have "sint (word_of_int (2 ^ k) :: 'a word) = 2 ^ k"
    by (rule sint_of_int_in_range [rotated])
  then show ?thesis by simp
qed

lemma pow2_pos: "k < LENGTH('a) - 1 \<Longrightarrow> \<not> (2 ^ k :: 'a::len word) \<le>s 0"
  by (simp add: word_sle_eq sint_pow2)

lemma sint_nonneg_eq_uint: "0 \<le> sint w \<Longrightarrow> sint w = uint w"
proof -
  assume a: "0 \<le> sint w"
  have "sint w < 2 ^ (LENGTH('a) - Suc 0)" by (rule sint_less)
  also have "\<dots> \<le> (2::int) ^ LENGTH('a)" by (simp add: power_increasing)
  finally have "take_bit LENGTH('a) (sint w) = sint w"
    using a by (simp add: take_bit_int_eq_self)
  then show ?thesis by (simp add: uint_sint)
qed

lemma srem_nonneg:
  assumes "0 \<le>s a" "0 \<le>s b" shows "srem a b = a mod b"
proof -
  have a: "sint a = uint a" and b: "sint b = uint b"
    using assms by (simp_all add: word_sle_eq sint_nonneg_eq_uint)
  have "uint a smod uint b = uint a mod uint b"
    using order_le_less [of 0 "uint a"] by (auto simp add: smod_int_alt_def sgn_if)
  then have "srem a b = word_of_int (uint (a mod b))"
    by (simp add: srem_def a b uint_mod_distrib)
  then show ?thesis by simp
qed

lemma dvd_two_power: "(d::nat) dvd 2 ^ k \<Longrightarrow> \<exists>i\<le>k. d = 2 ^ i"
proof (induction k arbitrary: d)
  case 0
  then show ?case by simp
next
  case (Suc k)
  show ?case
  proof (cases "even d")
    case True
    then obtain d' where d: "d = 2 * d'" by (elim evenE)
    with Suc.prems have "d' dvd 2 ^ k" by simp
    then obtain i where "i \<le> k" "d' = 2 ^ i" using Suc.IH by blast
    then have "Suc i \<le> Suc k \<and> d = 2 ^ Suc i" using d by simp
    then show ?thesis by blast
  next
    case False
    then have "coprime d 2" by (simp add: coprime_right_2_iff_odd)
    with Suc.prems have "d dvd 2 ^ k"
      by (simp add: coprime_dvd_mult_right_iff)
    then obtain i where "i \<le> k" "d = 2 ^ i" using Suc.IH by blast
    then show ?thesis using le_SucI by blast
  qed
qed

lemma word_mod_le: "(a::'a::len word) mod b \<le> a"
  by (simp add: word_le_nat_alt unat_mod)

lemma drop_bit1_nonneg: "0 \<le>s (drop_bit (Suc k) w :: 'a::len word)"
proof -
  have "\<not> bit (drop_bit (Suc k) w) (LENGTH('a) - Suc 0)"
    by (auto simp add: bit_simps dest: bit_imp_le_length)
  then show ?thesis by (simp add: word_sle_eq bit_last_iff)
qed

lemma draws_shift: "draws f s (Suc i) = draws f (snd (f s)) i"
  by (induction i) simp_all

lemma first_accepted_0: "first_accepted f acc s 0 \<longleftrightarrow> acc (fst (f s))"
  by (simp add: first_accepted_def)

lemma first_accepted_Suc:
  "first_accepted f acc s (Suc k) \<longleftrightarrow> \<not> acc (fst (f s)) \<and> first_accepted f acc (snd (f s)) k"
proof -
  have all: "list_all Q [0..<n] \<longleftrightarrow> (\<forall>i<n. Q i)" for Q :: "nat \<Rightarrow> bool" and n
    by (auto simp add: list_all_iff)
  have "(\<forall>i<Suc k. Q i) \<longleftrightarrow> Q 0 \<and> (\<forall>i<k. Q (Suc i))" for Q
    by (auto simp add: less_Suc_eq_0_disj)
  then show ?thesis
    unfolding first_accepted_def all by (simp add: draws_shift del: draws.simps(2))
qed

lemma first_accepted_iff:
  "first_accepted f acc s k \<longleftrightarrow> (\<forall>i<k. \<not> acc (fst (draws f s i))) \<and> acc (fst (draws f s k))"
  by (auto simp add: first_accepted_def list_all_iff)


lemma Uint64nUint32n_loop_first:
  "first_accepted (u32 src) (\<lambda>v. v < mx) s k \<Longrightarrow>
   Uint64nUint32n_loop src mx (fst (u32 src s)) (snd (u32 src s)) = Some (draws (u32 src) s k)"
proof (induction k arbitrary: s)
  case 0
  then show ?case
    by (subst Uint64nUint32n_loop.simps) (auto simp add: first_accepted_0)
next
  case (Suc k)
  then have rej: "mx \<le> fst (u32 src s)"
    and rest: "first_accepted (u32 src) (\<lambda>v. v < mx) (snd (u32 src s)) k"
    by (simp_all add: first_accepted_Suc not_less)
  show ?case
    using rej Suc.IH [OF rest]
    by (subst Uint64nUint32n_loop.simps) (simp add: draws_shift case_prod_beta del: draws.simps(2))
qed

lemma largest_multiple_nat:
  fixes n j :: nat
  assumes n: "0 < n" and nd: "\<not> n dvd 2 ^ j"
  shows "largest_multiple_upto n (2 ^ j) ((2 ^ j - 1) - (2 ^ j - 1) mod n)"
proof -
  define M :: nat where "M = 2 ^ j - 1"
  define m where "m = M - M mod n"
  have M: "Suc M = 2 ^ j" by (simp add: M_def)
  have m: "m = n * (M div n)" by (simp add: m_def minus_mod_eq_mult_div)
  have le: "m \<le> M" by (simp add: m_def)
  have "M mod n < n" using n by simp
  then have "M < m + n" unfolding m_def using mod_less_eq_dividend [of M n] by linarith
  then have "2 ^ j \<le> m + n" using M by linarith
  moreover have "m + n \<noteq> 2 ^ j"
  proof
    assume "m + n = 2 ^ j"
    then have "2 ^ j = n * (M div n + 1)" by (simp add: m algebra_simps)
    then have "n dvd 2 ^ j" by (metis dvd_triv_left)
    with nd show False by contradiction
  qed
  ultimately have "2 ^ j < m + n" by linarith
  moreover have "n dvd m" by (simp add: m)
  moreover have "m \<le> 2 ^ j" using le M by linarith
  ultimately show ?thesis by (simp add: largest_multiple_upto_def m_def M_def)
qed

lemma not_pow2_word:
  fixes n :: "'a::len word"
  assumes "n AND (n - 1) \<noteq> 0"
  shows "\<not> unat n dvd 2 ^ j"
proof
  assume "unat n dvd 2 ^ j"
  then obtain i where i: "unat n = 2 ^ i" using dvd_two_power by blast
  have "n = word_of_nat (unat n)" by simp
  also have "\<dots> = 2 ^ i" by (simp only: i) simp
  finally have "n AND (n - 1) = 0" by (simp add: pow2_and_pred)
  with assms show False by contradiction
qed

lemma card_residue_nat:
  fixes n r q :: nat
  assumes n: "0 < n" and r: "r < n"
  shows "card {v. v < n * q \<and> v mod n = r} = q"
proof -
  have "{v. v < n * q \<and> v mod n = r} = (\<lambda>i. r + n * i) ` {..<q}" (is "?A = ?B")
  proof (rule set_eqI, rule iffI)
    fix v assume "v \<in> ?A"
    then have v: "v < n * q" "v mod n = r" by simp_all
    have "v div n < q" using v(1) n by (simp add: less_mult_imp_div_less mult.commute)
    moreover have "v = r + n * (v div n)" using v(2) by (metis mod_mult_div_eq)
    ultimately show "v \<in> ?B" by blast
  next
    fix v assume "v \<in> ?B"
    then obtain i where i: "i < q" "v = r + n * i" by blast
    have "Suc i \<le> q" using i(1) by simp
    then have "n * Suc i \<le> n * q" by (rule mult_le_mono2)
    then have "n * i + n \<le> n * q" by simp
    then have "v < n * q" using r i(2) by linarith
    moreover have "v mod n = r" using r i(2) by simp
    ultimately show "v \<in> ?A" by simp
  qed
  moreover have "inj_on (\<lambda>i. r + n * i) {..<q}" using n by (simp add: inj_on_def)
  ultimately show ?thesis by (simp add: card_image)
qed

lemma card_word_residue:
  fixes mx n r :: "'a::len word"
  assumes n: "n \<noteq> 0" and r: "r < n" and d: "unat n dvd unat mx"
  shows "card {v. v < mx \<and> v mod n = r} = unat mx div unat n"
proof -
  have "unat ` {v. v < mx \<and> v mod n = r} = {x. x < unat mx \<and> x mod unat n = unat r}"
    (is "unat ` ?A = ?B")
  proof (rule set_eqI, rule iffI)
    fix x assume "x \<in> unat ` ?A"
    then show "x \<in> ?B" by (auto simp add: word_less_nat_alt unat_mod)
  next
    fix x assume "x \<in> ?B"
    then have x: "x < unat mx" "x mod unat n = unat r" by simp_all
    have "x < 2 ^ LENGTH('a)" using x(1) unsigned_less [of mx] by (rule less_trans)
    then have u: "unat (word_of_nat x :: 'a word) = x" by (simp add: unat_of_nat)
    have "(word_of_nat x :: 'a word) < mx" using x(1) u by (simp add: word_less_nat_alt)
    moreover have "(word_of_nat x :: 'a word) mod n = r"
      using x(2) u by (simp add: word_eq_iff_unsigned [where ?'a = nat] unat_mod)
    ultimately show "x \<in> unat ` ?A" using u by (metis (mono_tags, lifting) image_eqI mem_Collect_eq)
  qed
  then have img: "unat ` ?A = ?B" .
  have "inj_on unat ?A" by (rule inj_onI) (rule unsigned_word_eqI)
  then have "card (unat ` ?A) = card ?A" by (rule card_image)
  then have "card ?A = card ?B" by (simp only: img)
  moreover obtain q where q: "unat mx = unat n * q" using d by (elim dvdE)
  moreover have "0 < unat n" using n by (simp add: unat_gt_0)
  moreover have "unat r < unat n" using r by (simp add: word_less_nat_alt)
  ultimately show ?thesis by (simp add: card_residue_nat)
qed


lemma gen_max_unat: "unat (M - M mod n) = unat M - unat M mod unat n" for M :: "'a::len word"
  by (simp add: unat_sub word_mod_le unat_mod)

lemma gen_max_largest:
  fixes M n :: "'a::len word"
  assumes "n AND (n - 1) \<noteq> 0" and "unat M = 2 ^ j - 1"
  shows "largest_multiple_upto (unat n) (2 ^ j) (unat (M - M mod n))"
proof -
  have "n \<noteq> 0" using assms(1) by auto
  then have "0 < unat n" by (simp add: unat_gt_0)
  moreover have "\<not> unat n dvd 2 ^ j" using assms(1) by (rule not_pow2_word)
  ultimately show ?thesis
    unfolding gen_max_unat assms(2) by (rule largest_multiple_nat)
qed

lemma Int31_nonneg: "0 \<le>s fst (Int31 src s)"
  by (simp add: Int31_def case_prod_beta drop_bit1_nonneg)

lemma Int31n_loop_nonneg:
  assumes "Int31n_loop src mx v s = Some y" and "0 \<le>s v"
  shows "0 \<le>s fst y \<and> fst y <s mx"
proof -
  have "0 \<le>s v \<longrightarrow> 0 \<le>s fst y \<and> fst y <s mx"
  proof (rule Int31n_loop.raw_induct
      [where P = "\<lambda>src mx v s y. 0 \<le>s v \<longrightarrow> 0 \<le>s fst y \<and> fst y <s mx", OF _ assms(1)])
    fix loop :: "'a source \<Rightarrow> 32 word \<Rightarrow> 32 word \<Rightarrow> 'a \<Rightarrow> (32 word \<times> 'a) option"
      and src mx v s y
    assume IH: "\<And>src mx v s y. loop src mx v s = Some y \<Longrightarrow> 0 \<le>s v \<longrightarrow> 0 \<le>s fst y \<and> fst y <s mx"
      and eq: "(if mx \<le>s v then case Int31 src s of (v', s') \<Rightarrow> loop src mx v' s'
               else Some (v, s)) = Some y"
    show "0 \<le>s v \<longrightarrow> 0 \<le>s fst y \<and> fst y <s mx"
    proof (cases "mx \<le>s v")
      case True
      with eq have "loop src mx (fst (Int31 src s)) (snd (Int31 src s)) = Some y"
        by (simp add: case_prod_beta)
      then have "0 \<le>s fst (Int31 src s) \<longrightarrow> 0 \<le>s fst y \<and> fst y <s mx" by (rule IH)
      then have "0 \<le>s fst y \<and> fst y <s mx" by (rule mp) (rule Int31_nonneg)
      then show ?thesis by (rule impI)
    next
      case False
      with eq have y: "y = (v, s)" by simp
      from False have "v <s mx" by (simp only: signed.not_le)
      then show ?thesis by (simp only: y fst_conv simp_thms)
    qed
  qed
  with assms(2) show ?thesis by simp
qed

lemma uint_small_sint:
  "uint (w::'a::len word) < 2 ^ (LENGTH('a) - Suc 0) \<Longrightarrow> sint w = uint w"
proof -
  assume "uint w < 2 ^ (LENGTH('a) - Suc 0)"
  moreover have "- (2 ^ (LENGTH('a) - Suc 0)) \<le> uint w"
    by (rule order_trans [of _ 0]) simp_all
  ultimately show ?thesis by (simp add: sint_uint signed_take_bit_int_eq_self)
qed

lemma below_nonneg:
  fixes v mx :: "'a::len word"
  assumes "v \<le> mx" and "0 \<le>s mx"
  shows "0 \<le>s v"
proof -
  have "sint mx = uint mx" using assms(2) by (simp add: word_sle_eq sint_nonneg_eq_uint)
  then have "uint mx < 2 ^ (LENGTH('a) - Suc 0)" using sint_less [of mx] by simp
  moreover have "uint v \<le> uint mx" using assms(1) by (simp add: word_le_def)
  ultimately have "sint v = uint v" by (intro uint_small_sint) linarith
  then show ?thesis by (simp add: word_sle_eq)
qed

lemma sless_nonneg_iff:
  "0 \<le>s a \<Longrightarrow> 0 \<le>s b \<Longrightarrow> a <s b \<longleftrightarrow> a < b"
  by (simp add: word_sle_eq word_sless_alt sint_nonneg_eq_uint word_less_def)

lemma signed_range_iff:
  fixes v mx :: "'a::len word"
  assumes "0 \<le>s mx"
  shows "0 \<le>s v \<and> v <s mx \<longleftrightarrow> v < mx"
  using assms below_nonneg [of v mx] sless_nonneg_iff [of v mx] by auto

lemma pos_word: "\<not> n \<le>s 0 \<Longrightarrow> 0 \<le>s n \<and> n \<noteq> 0" for n :: "'a::len word"
  by (auto simp add: word_sle_eq)

lemma maxInt32_word: "(word_of_int maxInt32 :: 32 word) = 0x7FFFFFFF"
  by (simp add: maxInt32_def maxUint32_def)

lemma maxInt64_word: "(word_of_int maxInt64 :: 64 word) = 0x7FFFFFFFFFFFFFFF"
  by (simp add: maxInt64_def maxUint64_def)

lemma maxUint32_word: "(word_of_int maxUint32 :: 32 word) = 0xFFFFFFFF"
  by (simp add: maxUint32_def)

lemma maxUint64_word: "(word_of_int maxUint64 :: 64 word) = 0xFFFFFFFFFFFFFFFF"
  by (simp add: maxUint64_def)

lemma nonneg_maxInt32: "0 \<le>s (0x7FFFFFFF :: 32 word)"
  by (simp add: word_sle_eq)

lemma nonneg_maxInt64: "0 \<le>s (0x7FFFFFFFFFFFFFFF :: 64 word)"
  by (simp add: word_sle_eq)

lemma Int31n_max_eq:
  "\<not> n \<le>s 0 \<Longrightarrow> Int31n_max n = 0x7FFFFFFF - 0x7FFFFFFF mod n"
  by (simp add: Int31n_max_def maxInt32_word srem_nonneg nonneg_maxInt32 pos_word)

lemma Int63n_max_eq:
  "\<not> n \<le>s 0 \<Longrightarrow> Int63n_max n = 0x7FFFFFFFFFFFFFFF - 0x7FFFFFFFFFFFFFFF mod n"
  by (simp add: Int63n_max_def maxInt64_word srem_nonneg nonneg_maxInt64 pos_word)

lemma gen_max_le: "M - M mod n \<le> M" for M :: "'a::len word"
  by (simp add: word_sub_le word_mod_le)

lemma Int31n_max_nonneg: "\<not> n \<le>s 0 \<Longrightarrow> 0 \<le>s Int31n_max n"
  by (simp add: Int31n_max_eq below_nonneg [OF gen_max_le nonneg_maxInt32])

lemma Int63n_max_nonneg: "\<not> n \<le>s 0 \<Longrightarrow> 0 \<le>s Int63n_max n"
  by (simp add: Int63n_max_eq below_nonneg [OF gen_max_le nonneg_maxInt64])

lemma Int31n_max_largest:
  "\<not> n \<le>s 0 \<Longrightarrow> n AND (n - 1) \<noteq> 0 \<Longrightarrow>
   largest_multiple_upto (unat n) (nat maxInt32 + 1) (unat (Int31n_max n))"
  using gen_max_largest [of n "0x7FFFFFFF" 31]
  by (simp add: Int31n_max_eq maxInt32_def maxUint32_def)

lemma Int63n_max_largest:
  "\<not> n \<le>s 0 \<Longrightarrow> n AND (n - 1) \<noteq> 0 \<Longrightarrow>
   largest_multiple_upto (unat n) (nat maxInt64 + 1) (unat (Int63n_max n))"
  using gen_max_largest [of n "0x7FFFFFFFFFFFFFFF" 63]
  by (simp add: Int63n_max_eq maxInt64_def maxUint64_def)

lemma Uint64nUint32n_max_largest:
  "n AND (n - 1) \<noteq> 0 \<Longrightarrow>
   largest_multiple_upto (unat n) (nat maxUint32 + 1) (unat (Uint64nUint32n_max n))"
  using gen_max_largest [of n "0xFFFFFFFF" 32]
  by (simp add: Uint64nUint32n_max_def maxUint32_def)

lemma Uint64n_max_largest:
  "n AND (n - 1) \<noteq> 0 \<Longrightarrow>
   largest_multiple_upto (unat n) (nat maxUint64 + 1) (unat (Uint64n_max n))"
  using gen_max_largest [of n "0xFFFFFFFFFFFFFFFF" 64]
  by (simp add: Uint64n_max_def maxUint64_def)

lemma Int63_nonneg: "0 \<le>s fst (Int63 src s)"
  by (simp add: Int63_def case_prod_beta drop_bit1_nonneg)

lemma Int63n_loop_nonneg:
  assumes "Int63n_loop src mx v s = Some y" and "0 \<le>s v"
  shows "0 \<le>s fst y \<and> fst y <s mx"
proof -
  have "0 \<le>s v \<longrightarrow> 0 \<le>s fst y \<and> fst y <s mx"
  proof (rule Int63n_loop.raw_induct
      [where P = "\<lambda>src mx v s y. 0 \<le>s v \<longrightarrow> 0 \<le>s fst y \<and> fst y <s mx", OF _ assms(1)])
    fix loop :: "'a source \<Rightarrow> 64 word \<Rightarrow> 64 word \<Rightarrow> 'a \<Rightarrow> (64 word \<times> 'a) option"
      and src mx v s y
    assume IH: "\<And>src mx v s y. loop src mx v s = Some y \<Longrightarrow> 0 \<le>s v \<longrightarrow> 0 \<le>s fst y \<and> fst y <s mx"
      and eq: "(if mx \<le>s v then case Int63 src s of (v', s') \<Rightarrow> loop src mx v' s'
               else Some (v, s)) = Some y"
    show "0 \<le>s v \<longrightarrow> 0 \<le>s fst y \<and> fst y <s mx"
    proof (cases "mx \<le>s v")
      case True
      with eq have "loop src mx (fst (Int63 src s)) (snd (Int63 src s)) = Some y"
        by (simp add: case_prod_beta)
      then have "0 \<le>s fst (Int63 src s) \<longrightarrow> 0 \<le>s fst y \<and> fst y <s mx" by (rule IH)
      then have "0 \<le>s fst y \<and> fst y <s mx" by (rule mp) (rule Int63_nonneg)
      then show ?thesis by (rule impI)
    next
      case False
      with eq have y: "y = (v, s)" by simp
      from False have "v <s mx" by (simp only: signed.not_le)
      then show ?thesis by (simp only: y fst_conv simp_thms)
    qed
  qed
  with assms(2) show ?thesis by simp
qed

lemma Int31n_loop_first:
  "first_accepted (Int31 src) (\<lambda>v. v <s mx) s k \<Longrightarrow>
   Int31n_loop src mx (fst (Int31 src s)) (snd (Int31 src s)) = Some (draws (Int31 src) s k)"
proof (induction k arbitrary: s)
  case 0
  then show ?case
    by (subst Int31n_loop.simps) (auto simp add: first_accepted_0)
next
  case (Suc k)
  then have rej: "mx \<le>s fst (Int31 src s)"
    and rest: "first_accepted (Int31 src) (\<lambda>v. v <s mx) (snd (Int31 src s)) k"
    by (simp_all add: first_accepted_Suc signed.not_less)
  show ?case
    using rej Suc.IH [OF rest]
    by (subst Int31n_loop.simps) (simp add: draws_shift case_prod_beta del: draws.simps(2))
qed

lemma Int63n_loop_first:
  "first_accepted (Int63 src) (\<lambda>v. v <s mx) s k \<Longrightarrow>
   Int63n_loop src mx (fst (Int63 src s)) (snd (Int63 src s)) = Some (draws (Int63 src) s k)"
proof (induction k arbitrary: s)
  case 0
  then show ?case
    by (subst Int63n_loop.simps) (auto simp add: first_accepted_0)
next
  case (Suc k)
  then have rej: "mx \<le>s fst (Int63 src s)"
    and rest: "first_accepted (Int63 src) (\<lambda>v. v <s mx) (snd (Int63 src s)) k"
    by (simp_all add: first_accepted_Suc signed.not_less)
  show ?case
    using rej Suc.IH [OF rest]
    by (subst Int63n_loop.simps) (simp add: draws_shift case_prod_beta del: draws.simps(2))
qed

lemma Uint64n_loop_first:
  "first_accepted (u64 src) (\<lambda>v. v < mx) s k \<Longrightarrow>
   Uint64n_loop src mx (fst (u64 src s)) (snd (u64 src s)) = Some (draws (u64 src) s k)"
proof (induction k arbitrary: s)
  case 0
  then show ?case
    by (subst Uint64n_loop.simps) (auto simp add: first_accepted_0)
next
  case (Suc k)
  then have rej: "mx \<le> fst (u64 src s)"
    and rest: "first_accepted (u64 src) (\<lambda>v. v < mx) (snd (u64 src s)) k"
    by (simp_all add: first_accepted_Suc not_less)
  show ?case
    using rej Suc.IH [OF rest]
    by (subst Uint64n_loop.simps) (simp add: draws_shift case_prod_beta del: draws.simps(2))
qed

text \<open>Returns of the samplers under a first accepted draw.\<close>

lemma Int31n_first:
  "\<not> n \<le>s 0 \<Longrightarrow> n AND (n - 1) \<noteq> 0 \<Longrightarrow>
   first_accepted (Int31 src) (\<lambda>v. v <s Int31n_max n) s k \<Longrightarrow>
   Int31n src n s =
     Some (Inr (srem (fst (draws (Int31 src) s k)) n), snd (draws (Int31 src) s k))"
  by (simp add: Int31n_def Int31n_loop_first case_prod_beta)

lemma Int63n_first:
  "\<not> n \<le>s 0 \<Longrightarrow> n AND (n - 1) \<noteq> 0 \<Longrightarrow>
   first_accepted (Int63 src) (\<lambda>v. v <s Int63n_max n) s k \<Longrightarrow>
   Int63n src n s =
     Some (Inr (srem (fst (draws (Int63 src) s k)) n), snd (draws (Int63 src) s k))"
  by (simp add: Int63n_def Int63n_loop_first case_prod_beta)

lemma Uint64nUint32n_first:
  "n AND (n - 1) \<noteq> 0 \<Longrightarrow>
   first_accepted (u32 src) (\<lambda>v. v < Uint64nUint32n_max n) s k \<Longrightarrow>
   Uint64nUint32n src n s =
     Some (Inr (fst (draws (u32 src) s k) mod n), snd (draws (u32 src) s k))"
  by (auto simp add: Uint64nUint32n_def Uint64nUint32n_loop_first case_prod_beta)

lemma Uint64n_first:
  "n AND (n - 1) \<noteq> 0 \<Longrightarrow>
   first_accepted (u64 src) (\<lambda>v. v < Uint64n_max n) s k \<Longrightarrow>
   Uint64n src n s =
     Some (Inr (fst (draws (u64 src) s k) mod n), snd (draws (u64 src) s k))"
  by (auto simp add: Uint64n_def Uint64n_loop_first case_prod_beta)

text \<open>Range of the results.\<close>

lemma pred_less: "n \<noteq> 0 \<Longrightarrow> v AND (n - 1) < n" for n :: "'a::len word"
proof -
  assume n: "n \<noteq> 0"
  have "v AND (n - 1) \<le> n - 1" by (rule word_and_le1)
  moreover have "n - 1 < n" using n by (simp add: word_less_nat_alt measure_unat)
  ultimately show ?thesis by (rule le_less_trans)
qed

lemma mod_less_word: "n \<noteq> 0 \<Longrightarrow> v mod n < n" for n :: "'a::len word"
  by (simp add: word_mod_less_divisor word_neq_0_conv)

lemma signed_in_range:
  fixes r n :: "'a::len word"
  assumes "r < n" and "\<not> n \<le>s 0"
  shows "0 \<le>s r \<and> r <s n"
  using assms signed_range_iff [of n r] pos_word [of n] by simp

lemma Int31n_range:
  assumes "Int31n src n s = Some (Inr r, s')"
  shows "0 \<le>s r \<and> r <s n"
proof -
  have pos: "\<not> n \<le>s 0" using assms by (auto simp add: Int31n_def split: if_splits)
  then have n: "n \<noteq> 0" "0 \<le>s n" by (simp_all add: pos_word)
  show ?thesis
  proof (cases "n AND (n - 1) = 0")
    case True
    with assms pos have "r = fst (Int31 src s) AND (n - 1)"
      by (auto simp add: Int31n_def case_prod_beta)
    then have "r < n" using n(1) by (simp add: pred_less)
    then show ?thesis using pos by (rule signed_in_range)
  next
    case False
    with assms pos obtain y where
      y: "Int31n_loop src (Int31n_max n) (fst (Int31 src s)) (snd (Int31 src s)) = Some y"
      and r: "r = srem (fst y) n"
      by (auto simp add: Int31n_def case_prod_beta split: option.splits)
    have "0 \<le>s fst y" using Int31n_loop_nonneg [OF y Int31_nonneg] by simp
    then have "r = fst y mod n" using r n(2) by (simp add: srem_nonneg)
    then have "r < n" using n(1) by (simp add: mod_less_word)
    then show ?thesis using pos by (rule signed_in_range)
  qed
qed

lemma Int63n_range:
  assumes "Int63n src n s = Some (Inr r, s')"
  shows "0 \<le>s r \<and> r <s n"
proof -
  have pos: "\<not> n \<le>s 0" using assms by (auto simp add: Int63n_def split: if_splits)
  then have n: "n \<noteq> 0" "0 \<le>s n" by (simp_all add: pos_word)
  show ?thesis
  proof (cases "n AND (n - 1) = 0")
    case True
    with assms pos have "r = fst (Int63 src s) AND (n - 1)"
      by (auto simp add: Int63n_def case_prod_beta)
    then have "r < n" using n(1) by (simp add: pred_less)
    then show ?thesis using pos by (rule signed_in_range)
  next
    case False
    with assms pos obtain y where
      y: "Int63n_loop src (Int63n_max n) (fst (Int63 src s)) (snd (Int63 src s)) = Some y"
      and r: "r = srem (fst y) n"
      by (auto simp add: Int63n_def case_prod_beta split: option.splits)
    have "0 \<le>s fst y" using Int63n_loop_nonneg [OF y Int63_nonneg] by simp
    then have "r = fst y mod n" using r n(2) by (simp add: srem_nonneg)
    then have "r < n" using n(1) by (simp add: mod_less_word)
    then show ?thesis using pos by (rule signed_in_range)
  qed
qed

lemma Uint64nUint32n_range:
  "Uint64nUint32n src n s = Some (Inr r, s') \<Longrightarrow> n \<noteq> 0 \<Longrightarrow> r < n"
  by (auto simp add: Uint64nUint32n_def case_prod_beta pred_less mod_less_word
      split: if_splits option.splits)

lemma Uint64n_range:
  "Uint64n src n s = Some (Inr r, s') \<Longrightarrow> n \<noteq> 0 \<Longrightarrow> r < n"
  by (auto simp add: Uint64n_def case_prod_beta pred_less mod_less_word
      split: if_splits option.splits)

lemma signed_residues_eq:
  fixes mx n :: "'a::len word"
  assumes mx: "0 \<le>s mx" and n: "0 \<le>s n"
  shows "{v. 0 \<le>s v \<and> v <s mx \<and> srem v n = r} = {v. v < mx \<and> v mod n = r}"
proof (rule Collect_cong)
  fix v
  have range: "0 \<le>s v \<and> v <s mx \<longleftrightarrow> v < mx" using mx by (rule signed_range_iff)
  show "0 \<le>s v \<and> v <s mx \<and> srem v n = r \<longleftrightarrow> v < mx \<and> v mod n = r"
  proof (cases "v < mx")
    case True
    with range have "0 \<le>s v \<and> v <s mx" by (rule iffD2)
    then have v: "0 \<le>s v" "v <s mx" by (rule conjunct1, rule conjunct2)
    have "srem v n = v mod n" using v(1) n by (rule srem_nonneg)
    then show ?thesis using True v by (simp only: simp_thms)
  next
    case False
    then have "\<not> (0 \<le>s v \<and> v <s mx)" using range by (simp only: simp_thms)
    then show ?thesis using False by (simp only: simp_thms de_Morgan_conj) (elim disjE; simp only: simp_thms)
  qed
qed

lemma signed_card_residue:
  fixes mx n r :: "'a::len word"
  assumes pos: "\<not> n \<le>s 0" and mx: "0 \<le>s mx" and r: "0 \<le>s r" "r <s n"
    and d: "unat n dvd unat mx"
  shows "card {v. 0 \<le>s v \<and> v <s mx \<and> srem v n = r} = unat mx div unat n"
proof -
  have n: "0 \<le>s n" "n \<noteq> 0" using pos_word [OF pos] by (rule conjunct1, rule conjunct2)
  have "r < n" using r(2) sless_nonneg_iff [OF r(1) n(1)] by (rule iffD1 [rotated])
  with n(2) have "card {v. v < mx \<and> v mod n = r} = unat mx div unat n"
    using d by (rule card_word_residue)
  then show ?thesis by (simp only: signed_residues_eq [OF mx n(1)])
qed

lemma not_pow2_nonzero: "n AND (n - 1) \<noteq> 0 \<Longrightarrow> n \<noteq> 0" for n :: "'a::len word"
proof
  assume "n AND (n - 1) \<noteq> 0" and "n = 0"
  then show False by simp
qed

lemma Int31n_unbiased:
  fixes n :: "32 word"
  assumes pos: "\<not> n \<le>s 0" and np: "n AND (n - 1) \<noteq> 0"
  shows
  "largest_multiple_upto (unat n) (nat maxInt32 + 1) (unat (Int31n_max n))
    \<and> (\<forall>k. first_accepted (Int31 src) (\<lambda>v. v <s Int31n_max n) s k \<longrightarrow>
          Int31n src n s =
            Some (Inr (srem (fst (draws (Int31 src) s k)) n), snd (draws (Int31 src) s k)))
    \<and> (\<forall>r s'. Int31n src n s = Some (Inr r, s') \<longrightarrow> 0 \<le>s r \<and> r <s n)
    \<and> (\<forall>r. 0 \<le>s r \<and> r <s n \<longrightarrow>
          card {v. 0 \<le>s v \<and> v <s Int31n_max n \<and> srem v n = r}
            = unat (Int31n_max n) div unat n)"
proof -
  have a: "largest_multiple_upto (unat n) (nat maxInt32 + 1) (unat (Int31n_max n))"
    using pos np by (rule Int31n_max_largest)
  have b: "\<forall>k. first_accepted (Int31 src) (\<lambda>v. v <s Int31n_max n) s k \<longrightarrow>
      Int31n src n s = Some (Inr (srem (fst (draws (Int31 src) s k)) n), snd (draws (Int31 src) s k))"
  proof (intro allI impI)
    fix k assume "first_accepted (Int31 src) (\<lambda>v. v <s Int31n_max n) s k"
    with pos np show "Int31n src n s =
        Some (Inr (srem (fst (draws (Int31 src) s k)) n), snd (draws (Int31 src) s k))"
      by (rule Int31n_first)
  qed
  have c: "\<forall>r s'. Int31n src n s = Some (Inr r, s') \<longrightarrow> 0 \<le>s r \<and> r <s n"
  proof (intro allI impI)
    fix r s' assume "Int31n src n s = Some (Inr r, s')"
    then show "0 \<le>s r \<and> r <s n" by (rule Int31n_range)
  qed
  have dv: "unat n dvd unat (Int31n_max n)"
    using a by (simp only: largest_multiple_upto_def)
  have d: "\<forall>r. 0 \<le>s r \<and> r <s n \<longrightarrow>
      card {v. 0 \<le>s v \<and> v <s Int31n_max n \<and> srem v n = r} = unat (Int31n_max n) div unat n"
  proof (intro allI impI, elim conjE)
    fix r assume r: "0 \<le>s r" "r <s n"
    from pos Int31n_max_nonneg [OF pos] r dv
    show "card {v. 0 \<le>s v \<and> v <s Int31n_max n \<and> srem v n = r} = unat (Int31n_max n) div unat n"
      by (rule signed_card_residue)
  qed
  show ?thesis by (intro conjI a b c d)
qed


lemma Int63n_unbiased:
  fixes m :: "64 word"
  assumes pos: "\<not> m \<le>s 0" and np: "m AND (m - 1) \<noteq> 0"
  shows
  "largest_multiple_upto (unat m) (nat maxInt64 + 1) (unat (Int63n_max m))
    \<and> (\<forall>k. first_accepted (Int63 src) (\<lambda>v. v <s Int63n_max m) s k \<longrightarrow>
          Int63n src m s =
            Some (Inr (srem (fst (draws (Int63 src) s k)) m), snd (draws (Int63 src) s k)))
    \<and> (\<forall>r s'. Int63n src m s = Some (Inr r, s') \<longrightarrow> 0 \<le>s r \<and> r <s m)
    \<and> (\<forall>r. 0 \<le>s r \<and> r <s m \<longrightarrow>
          card {v. 0 \<le>s v \<and> v <s Int63n_max m \<and> srem v m = r}
            = unat (Int63n_max m) div unat m)"
proof -
  have a: "largest_multiple_upto (unat m) (nat maxInt64 + 1) (unat (Int63n_max m))"
    using pos np by (rule Int63n_max_largest)
  have b: "\<forall>k. first_accepted (Int63 src) (\<lambda>v. v <s Int63n_max m) s k \<longrightarrow>
      Int63n src m s = Some (Inr (srem (fst (draws (Int63 src) s k)) m), snd (draws (Int63 src) s k))"
  proof (intro allI impI)
    fix k assume "first_accepted (Int63 src) (\<lambda>v. v <s Int63n_max m) s k"
    with pos np show "Int63n src m s =
        Some (Inr (srem (fst (draws (Int63 src) s k)) m), snd (draws (Int63 src) s k))"
      by (rule Int63n_first)
  qed
  have c: "\<forall>r s'. Int63n src m s = Some (Inr r, s') \<longrightarrow> 0 \<le>s r \<and> r <s m"
  proof (intro allI impI)
    fix r s' assume "Int63n src m s = Some (Inr r, s')"
    then show "0 \<le>s r \<and> r <s m" by (rule Int63n_range)
  qed
  have dv: "unat m dvd unat (Int63n_max m)"
    using a by (simp only: largest_multiple_upto_def)
  have d: "\<forall>r. 0 \<le>s r \<and> r <s m \<longrightarrow>
      card {v. 0 \<le>s v \<and> v <s Int63n_max m \<and> srem v m = r} = unat (Int63n_max m) div unat m"
  proof (intro allI impI, elim conjE)
    fix r assume r: "0 \<le>s r" "r <s m"
    from pos Int63n_max_nonneg [OF pos] r dv
    show "card {v. 0 \<le>s v \<and> v <s Int63n_max m \<and> srem v m = r} = unat (Int63n_max m) div unat m"
      by (rule signed_card_residue)
  qed
  show ?thesis by (intro conjI a b c d)
qed


lemma Uint64nUint32n_unbiased:
  fixes n :: "32 word"
  assumes np: "n AND (n - 1) \<noteq> 0"
  shows
  "largest_multiple_upto (unat n) (nat maxUint32 + 1) (unat (Uint64nUint32n_max n))
    \<and> (\<forall>k. first_accepted (u32 src) (\<lambda>v. v < Uint64nUint32n_max n) s k \<longrightarrow>
          Uint64nUint32n src n s =
            Some (Inr (fst (draws (u32 src) s k) mod n), snd (draws (u32 src) s k)))
    \<and> (\<forall>r s'. Uint64nUint32n src n s = Some (Inr r, s') \<longrightarrow> r < n)
    \<and> (\<forall>r. r < n \<longrightarrow>
          card {v. v < Uint64nUint32n_max n \<and> v mod n = r}
            = unat (Uint64nUint32n_max n) div unat n)"
proof -
  have nz: "n \<noteq> 0" using np by (rule not_pow2_nonzero)
  have a: "largest_multiple_upto (unat n) (nat maxUint32 + 1) (unat (Uint64nUint32n_max n))"
    using np by (rule Uint64nUint32n_max_largest)
  have b: "\<forall>k. first_accepted (u32 src) (\<lambda>v. v < Uint64nUint32n_max n) s k \<longrightarrow>
      Uint64nUint32n src n s = Some (Inr (fst (draws (u32 src) s k) mod n), snd (draws (u32 src) s k))"
  proof (intro allI impI)
    fix k assume "first_accepted (u32 src) (\<lambda>v. v < Uint64nUint32n_max n) s k"
    with np show "Uint64nUint32n src n s =
        Some (Inr (fst (draws (u32 src) s k) mod n), snd (draws (u32 src) s k))"
      by (rule Uint64nUint32n_first)
  qed
  have c: "\<forall>r s'. Uint64nUint32n src n s = Some (Inr r, s') \<longrightarrow> r < n"
  proof (intro allI impI)
    fix r s' assume "Uint64nUint32n src n s = Some (Inr r, s')"
    then show "r < n" using nz by (rule Uint64nUint32n_range)
  qed
  have dv: "unat n dvd unat (Uint64nUint32n_max n)"
    using a by (simp only: largest_multiple_upto_def)
  have d: "\<forall>r. r < n \<longrightarrow>
      card {v. v < Uint64nUint32n_max n \<and> v mod n = r} = unat (Uint64nUint32n_max n) div unat n"
  proof (intro allI impI)
    fix r assume r: "r < n"
    from nz r dv
    show "card {v. v < Uint64nUint32n_max n \<and> v mod n = r} = unat (Uint64nUint32n_max n) div unat n"
      by (rule card_word_residue)
  qed
  show ?thesis by (intro conjI a b c d)
qed


lemma Uint64n_unbiased:
  fixes m :: "64 word"
  assumes np: "m AND (m - 1) \<noteq> 0"
  shows
  "largest_multiple_upto (unat m) (nat maxUint64 + 1) (unat (Uint64n_max m))
    \<and> (\<forall>k. first_accepted (u64 src) (\<lambda>v. v < Uint64n_max m) s k \<longrightarrow>
          Uint64n src m s =
            Some (Inr (fst (draws (u64 src) s k) mod m), snd (draws (u64 src) s k)))
    \<and> (\<forall>r s'. Uint64n src m s = Some (Inr r, s') \<longrightarrow> r < m)
    \<and> (\<forall>r. r < m \<longrightarrow>
          card {v. v < Uint64n_max m \<and> v mod m = r}
            = unat (Uint64n_max m) div unat m)"
proof -
  have nz: "m \<noteq> 0" using np by (rule not_pow2_nonzero)
  have a: "largest_multiple_upto (unat m) (nat maxUint64 + 1) (unat (Uint64n_max m))"
    using np by (rule Uint64n_max_largest)
  have b: "\<forall>k. first_accepted (u64 src) (\<lambda>v. v < Uint64n_max m) s k \<longrightarrow>
      Uint64n src m s = Some (Inr (fst (draws (u64 src) s k) mod m), snd (draws (u64 src) s k))"
  proof (intro allI impI)
    fix k assume "first_accepted (u64 src) (\<lambda>v. v < Uint64n_max m) s k"
    with np show "Uint64n src m s =
        Some (Inr (fst (draws (u64 src) s k) mod m), snd (draws (u64 src) s k))"
      by (rule Uint64n_first)
  qed
  have c: "\<forall>r s'. Uint64n src m s = Some (Inr r, s') \<longrightarrow> r < m"
  proof (intro allI impI)
    fix r s' assume "Uint64n src m s = Some (Inr r, s')"
    then show "r < m" using nz by (rule Uint64n_range)
  qed
  have dv: "unat m dvd unat (Uint64n_max m)"
    using a by (simp only: largest_multiple_upto_def)
  have d: "\<forall>r. r < m \<longrightarrow>
      card {v. v < Uint64n_max m \<and> v mod m = r} = unat (Uint64n_max m) div unat m"
  proof (intro allI impI)
    fix r assume r: "r < m"
    from nz r dv
    show "card {v. v < Uint64n_max m \<and> v mod m = r} = unat (Uint64n_max m) div unat m"
      by (rule card_word_residue)
  qed
  show ?thesis by (intro conjI a b c d)
qed



section \<open>Rejection sampling\<close>

text \<open>
  C1. For a bound \<open>n > 0\<close> that is not a power of two (the test \<^verbatim>\<open>n&(n-1) == 0\<close>
  fails), each of \<^verbatim>\<open>Int31n\<close>, \<^verbatim>\<open>Int63n\<close>, \<^verbatim>\<open>Uint64nUint32n\<close> and \<^verbatim>\<open>Uint64n\<close>
  computes \<^verbatim>\<open>max = MAXVAL - MAXVAL % n\<close>, and this is the largest multiple of \<open>n\<close> not
  exceeding \<open>MAXVAL + 1\<close> (\<open>MAXVAL\<close> is \<^verbatim>\<open>maxInt32\<close>, \<^verbatim>\<open>maxInt64\<close>, \<^verbatim>\<open>maxUint32\<close>,
  \<^verbatim>\<open>maxUint64\<close>). Raw values \<open>\<ge> max\<close> are rejected and redrawn: when draw number \<open>k\<close> is
  the first one below \<open>max\<close>, the sampler returns that draw modulo \<open>n\<close>, in the state
  after \<open>k + 1\<close> draws. Whatever it returns lies in \<open>[0, n)\<close>, and every outcome \<open>r\<close>
  in \<open>[0, n)\<close> has exactly \<open>max / n\<close> accepted raw values that are mapped to it.
\<close>

theorem rejection_sampling_unbiased:
  fixes n :: "32 word" and m :: "64 word"
  shows
  "(\<not> n \<le>s 0 \<and> n AND (n - 1) \<noteq> 0 \<longrightarrow>
      largest_multiple_upto (unat n) (nat maxInt32 + 1) (unat (Int31n_max n))
    \<and> (\<forall>k. first_accepted (Int31 src) (\<lambda>v. v <s Int31n_max n) s k \<longrightarrow>
          Int31n src n s =
            Some (Inr (srem (fst (draws (Int31 src) s k)) n), snd (draws (Int31 src) s k)))
    \<and> (\<forall>r s'. Int31n src n s = Some (Inr r, s') \<longrightarrow> 0 \<le>s r \<and> r <s n)
    \<and> (\<forall>r. 0 \<le>s r \<and> r <s n \<longrightarrow>
          card {v. 0 \<le>s v \<and> v <s Int31n_max n \<and> srem v n = r}
            = unat (Int31n_max n) div unat n))
   \<and> (\<not> m \<le>s 0 \<and> m AND (m - 1) \<noteq> 0 \<longrightarrow>
      largest_multiple_upto (unat m) (nat maxInt64 + 1) (unat (Int63n_max m))
    \<and> (\<forall>k. first_accepted (Int63 src) (\<lambda>v. v <s Int63n_max m) s k \<longrightarrow>
          Int63n src m s =
            Some (Inr (srem (fst (draws (Int63 src) s k)) m), snd (draws (Int63 src) s k)))
    \<and> (\<forall>r s'. Int63n src m s = Some (Inr r, s') \<longrightarrow> 0 \<le>s r \<and> r <s m)
    \<and> (\<forall>r. 0 \<le>s r \<and> r <s m \<longrightarrow>
          card {v. 0 \<le>s v \<and> v <s Int63n_max m \<and> srem v m = r}
            = unat (Int63n_max m) div unat m))
   \<and> (n AND (n - 1) \<noteq> 0 \<longrightarrow>
      largest_multiple_upto (unat n) (nat maxUint32 + 1) (unat (Uint64nUint32n_max n))
    \<and> (\<forall>k. first_accepted (u32 src) (\<lambda>v. v < Uint64nUint32n_max n) s k \<longrightarrow>
          Uint64nUint32n src n s =
            Some (Inr (fst (draws (u32 src) s k) mod n), snd (draws (u32 src) s k)))
    \<and> (\<forall>r s'. Uint64nUint32n src n s = Some (Inr r, s') \<longrightarrow> r < n)
    \<and> (\<forall>r. r < n \<longrightarrow>
          card {v. v < Uint64nUint32n_max n \<and> v mod n = r}
            = unat (Uint64nUint32n_max n) div unat n))
   \<and> (m AND (m - 1) \<noteq> 0 \<longrightarrow>
      largest_multiple_upto (unat m) (nat maxUint64 + 1) (unat (Uint64n_max m))
    \<and> (\<forall>k. first_accepted (u64 src) (\<lambda>v. v < Uint64n_max m) s k \<longrightarrow>
          Uint64n src m s =
            Some (Inr (fst (draws (u64 src) s k) mod m), snd (draws (u64 src) s k)))
    \<and> (\<forall>r s'. Uint64n src m s = Some (Inr r, s') \<longrightarrow> r < m)
    \<and> (\<forall>r. r < m \<longrightarrow>
          card {v. v < Uint64n_max m \<and> v mod m = r}
            = unat (Uint64n_max m) div unat m))"
  (is "?P1 \<and> ?P2 \<and> ?P3 \<and> ?P4")
proof -
  have 1: ?P1 by (rule impI, elim conjE, rule Int31n_unbiased; assumption)
  have 2: ?P2 by (rule impI, elim conjE, rule Int63n_unbiased; assumption)
  have 3: ?P3 by (rule impI, rule Uint64nUint32n_unbiased, assumption)
  have 4: ?P4 by (rule impI, rule Uint64n_unbiased, assumption)
  show ?thesis by (intro conjI 1 2 3 4)
qed

lemmas eval_defs = first_accepted_def Int31_def Int63_def replay_def
      Int31n_max_def Int63n_max_def Uint64nUint32n_max_def Uint64n_max_def srem_def
      maxInt32_def maxUint32_def maxInt64_def maxUint64_def smod_int_alt_def
      word_sless_alt word_sle_eq

theorem rejection_sampling_unbiased_witness:
  "Int31n replay 3 [0xFFFFFFFFFFFFFFFF, 14] = Some (Inr 1, [])
   \<and> Int63n replay 3 [0xFFFFFFFFFFFFFFFF, 14] = Some (Inr 1, [])
   \<and> Uint64nUint32n replay 3 [0xFFFFFFFFFFFFFFFF, 14] = Some (Inr 2, [])
   \<and> Uint64n replay 3 [0xFFFFFFFFFFFFFFFF, 14] = Some (Inr 2, [])
   \<and> card {v::32 word. 0 \<le>s v \<and> v <s Int31n_max 3 \<and> srem v 3 = 2} = 715827882
   \<and> card {v::64 word. v < Uint64n_max 3 \<and> v mod 3 = 2} = 6148914691236517205"
proof -
  let ?s = "[0xFFFFFFFFFFFFFFFF, 14] :: 64 word list"
  note inst = rejection_sampling_unbiased [of 3 replay ?s 3]
  have h31: "\<not> (3::32 word) \<le>s 0 \<and> (3::32 word) AND (3 - 1) \<noteq> 0"
    by (simp add: word_sle_eq)
  have h63: "\<not> (3::64 word) \<le>s 0 \<and> (3::64 word) AND (3 - 1) \<noteq> 0"
    by (simp add: word_sle_eq)
  have h32: "(3::32 word) AND (3 - 1) \<noteq> 0" by simp
  have h64: "(3::64 word) AND (3 - 1) \<noteq> 0" by simp
  note i31 = inst [THEN conjunct1, THEN mp, OF h31]
  note i63 = inst [THEN conjunct2, THEN conjunct1, THEN mp, OF h63]
  note i32 = inst [THEN conjunct2, THEN conjunct2, THEN conjunct1, THEN mp, OF h32]
  note i64 = inst [THEN conjunct2, THEN conjunct2, THEN conjunct2, THEN mp, OF h64]
  have f31: "first_accepted (Int31 replay) (\<lambda>v. v <s Int31n_max 3) ?s 1"
    by (simp add: eval_defs)
  have f63: "first_accepted (Int63 replay) (\<lambda>v. v <s Int63n_max 3) ?s 1"
    by (simp add: eval_defs)
  have f32: "first_accepted (u32 replay) (\<lambda>v. v < Uint64nUint32n_max 3) ?s 1"
    by (simp add: eval_defs)
  have f64: "first_accepted (u64 replay) (\<lambda>v. v < Uint64n_max 3) ?s 1"
    by (simp add: eval_defs)
  have r31: "(0::32 word) \<le>s 2 \<and> (2::32 word) <s 3"
    by (simp add: word_sle_eq word_sless_alt)
  have r64: "(2::64 word) < 3" by simp
  have a: "Int31n replay 3 ?s = Some (Inr 1, [])"
    using i31 [THEN conjunct2, THEN conjunct1, THEN spec, THEN mp, OF f31]
    by (simp add: eval_defs)
  have b: "Int63n replay 3 ?s = Some (Inr 1, [])"
    using i63 [THEN conjunct2, THEN conjunct1, THEN spec, THEN mp, OF f63]
    by (simp add: eval_defs)
  have c: "Uint64nUint32n replay 3 ?s = Some (Inr 2, [])"
    using i32 [THEN conjunct2, THEN conjunct1, THEN spec, THEN mp, OF f32]
    by (simp add: eval_defs)
  have d: "Uint64n replay 3 ?s = Some (Inr 2, [])"
    using i64 [THEN conjunct2, THEN conjunct1, THEN spec, THEN mp, OF f64]
    by (simp add: eval_defs)
  have e: "card {v::32 word. 0 \<le>s v \<and> v <s Int31n_max 3 \<and> srem v 3 = 2}
      = unat (Int31n_max 3) div unat (3::32 word)"
    using r31 by (rule i31 [THEN conjunct2, THEN conjunct2, THEN conjunct2, THEN spec, THEN mp])
  have e': "unat (Int31n_max 3) div unat (3::32 word) = 715827882"
    by (simp add: eval_defs)
  have f: "card {v::64 word. v < Uint64n_max 3 \<and> v mod 3 = 2}
      = unat (Uint64n_max 3) div unat (3::64 word)"
    using r64 by (rule i64 [THEN conjunct2, THEN conjunct2, THEN conjunct2, THEN spec, THEN mp])
  have f': "unat (Uint64n_max 3) div unat (3::64 word) = 6148914691236517205"
    by (simp add: eval_defs)
  show ?thesis
    by (intro conjI a b c d e [unfolded e'] f [unfolded f'])
qed

section \<open>Bounds that are powers of two\<close>

text \<open>
  C3. For a bound that is a power of two (\<open>2 ^ k\<close> with \<open>k < 31\<close> for \<^verbatim>\<open>Int31n\<close>,
  \<open>k < 63\<close> for \<^verbatim>\<open>Int63n\<close>, \<open>k < 32\<close> and \<open>k < 64\<close> for the unsigned samplers) the
  sampler makes exactly one draw and returns it masked with \<open>n - 1\<close>:
  \<^verbatim>\<open>Int31n(n) = Int31() & (n-1)\<close>, \<^verbatim>\<open>Int63n(n) = Int63() & (n-1)\<close>, and the unsigned
  samplers return \<^verbatim>\<open>u32() & (n-1)\<close> and \<^verbatim>\<open>u64() & (n-1)\<close>. The state returned is the
  one after that single draw; the rejection loop is not entered.
\<close>

theorem power_of_two_single_masked_draw:
  "(\<forall>k<31. Int31n src (2 ^ k) s =
       Some (Inr (fst (Int31 src s) AND (2 ^ k - 1)), snd (u32 src s)))
   \<and> (\<forall>k<63. Int63n src (2 ^ k) s =
       Some (Inr (fst (Int63 src s) AND (2 ^ k - 1)), snd (u64 src s)))
   \<and> (\<forall>k<32. Uint64nUint32n src (2 ^ k) s =
       Some (Inr (fst (u32 src s) AND (2 ^ k - 1)), snd (u32 src s)))
   \<and> (\<forall>k<64. Uint64n src (2 ^ k) s =
       Some (Inr (fst (u64 src s) AND (2 ^ k - 1)), snd (u64 src s)))"
  (is "?P1 \<and> ?P2 \<and> ?P3 \<and> ?P4")
proof -
  have 1: ?P1
    by (simp add: Int31n_def Int31_def pow2_and_pred pow2_pos case_prod_beta)
  have 2: ?P2
    by (simp add: Int63n_def Int63_def pow2_and_pred pow2_pos case_prod_beta)
  have 3: ?P3
    by (simp add: Uint64nUint32n_def pow2_and_pred case_prod_beta)
  have 4: ?P4
    by (simp add: Uint64n_def pow2_and_pred case_prod_beta)
  show ?thesis by (intro conjI 1 2 3 4)
qed

theorem power_of_two_single_masked_draw_witness:
  "Int31n replay 8 [13] = Some (Inr 6, [])
   \<and> Int63n replay 8 [13] = Some (Inr 6, [])
   \<and> Uint64nUint32n replay 8 [13] = Some (Inr 5, [])
   \<and> Uint64n replay 8 [13] = Some (Inr 5, [])"
proof -
  note inst = power_of_two_single_masked_draw [of replay "[13]"]
  have k31: "(3::nat) < 31" and k63: "(3::nat) < 63" and k32: "(3::nat) < 32"
    and k64: "(3::nat) < 64" by simp_all
  have a: "Int31n replay 8 [13] = Some (Inr 6, [])"
    using inst [THEN conjunct1, THEN spec, THEN mp, OF k31]
    by (simp add: Int31_def replay_def)
  have b: "Int63n replay 8 [13] = Some (Inr 6, [])"
    using inst [THEN conjunct2, THEN conjunct1, THEN spec, THEN mp, OF k63]
    by (simp add: Int63_def replay_def)
  have c: "Uint64nUint32n replay 8 [13] = Some (Inr 5, [])"
    using inst [THEN conjunct2, THEN conjunct2, THEN conjunct1, THEN spec, THEN mp, OF k32]
    by (simp add: replay_def)
  have d: "Uint64n replay 8 [13] = Some (Inr 5, [])"
    using inst [THEN conjunct2, THEN conjunct2, THEN conjunct2, THEN spec, THEN mp, OF k64]
    by (simp add: replay_def)
  show ?thesis by (intro conjI a b c d)
qed

section \<open>Invalid bounds of the signed samplers\<close>

text \<open>
  C2. For every signed bound \<open>n \<le> 0\<close>, \<^verbatim>\<open>Int31n\<close> and \<^verbatim>\<open>Int63n\<close> panic with their
  message before any word is drawn (the generator state is the one they were given);
  they return no clamped or sentinel value. For every \<open>n > 0\<close> they do not panic.
\<close>

theorem signed_bound_panics_iff_not_positive:
  "(n \<le>s 0 \<longrightarrow>
      Int31n src n s = Some (Inl (Panic ''fastrand.Int31n: invalid argument''), s))
   \<and> (\<not> n \<le>s 0 \<longrightarrow> (\<forall>e s'. Int31n src n s \<noteq> Some (Inl e, s')))
   \<and> (m \<le>s 0 \<longrightarrow>
      Int63n src m s = Some (Inl (Panic ''fastrand.Int63n: invalid argument''), s))
   \<and> (\<not> m \<le>s 0 \<longrightarrow> (\<forall>e s'. Int63n src m s \<noteq> Some (Inl e, s')))"
  (is "?P1 \<and> ?P2 \<and> ?P3 \<and> ?P4")
proof -
  have 1: ?P1 by (simp add: Int31n_def)
  have 2: ?P2 by (simp add: Int31n_def case_prod_beta split: option.split)
  have 3: ?P3 by (simp add: Int63n_def)
  have 4: ?P4 by (simp add: Int63n_def case_prod_beta split: option.split)
  show ?thesis by (intro conjI 1 2 3 4)
qed

theorem signed_bound_panics_iff_not_positive_witness:
  "Int31n replay (- 5) [13] = Some (Inl (Panic ''fastrand.Int31n: invalid argument''), [13])
   \<and> Int63n replay 0 [13] = Some (Inl (Panic ''fastrand.Int63n: invalid argument''), [13])
   \<and> Int31n replay 8 [13] \<noteq> Some (Inl (Panic ''fastrand.Int31n: invalid argument''), [])
   \<and> Int63n replay 8 [13] \<noteq> Some (Inl (Panic ''fastrand.Int63n: invalid argument''), [])"
proof -
  note neg = signed_bound_panics_iff_not_positive [of "- 5" replay "[13]" 0]
  note pos = signed_bound_panics_iff_not_positive [of 8 replay "[13]" 8]
  have n31: "(- 5 :: 32 word) \<le>s 0" by (simp add: word_sle_eq)
  have n63: "(0 :: 64 word) \<le>s 0" by simp
  have p31: "\<not> (8 :: 32 word) \<le>s 0" by (simp add: word_sle_eq)
  have p63: "\<not> (8 :: 64 word) \<le>s 0" by (simp add: word_sle_eq)
  note a = neg [THEN conjunct1, THEN mp, OF n31]
  note b = neg [THEN conjunct2, THEN conjunct2, THEN conjunct1, THEN mp, OF n63]
  note c = pos [THEN conjunct2, THEN conjunct1, THEN mp, OF p31, THEN spec, THEN spec]
  note d = pos [THEN conjunct2, THEN conjunct2, THEN conjunct2, THEN mp, OF p63, THEN spec, THEN spec]
  show ?thesis by (intro conjI a b c d)
qed

section \<open>Properties of Fill\<close>

lemma length_uint64_bytes: "length (uint64_bytes ord v) = 8"
  by (cases ord) (simp_all add: uint64_bytes_def)

lemma putU64_length: "putU64 ord p v = Inr p' \<Longrightarrow> length p' = length p"
  by (auto simp add: putU64_def length_uint64_bytes split: if_splits)

lemma draws_after: "draws f s i = f (after f s i)"
  by (induction i) simp_all

lemma after_shift: "after f s (Suc k) = after f (snd (f s)) k"
  by (induction k) simp_all

lemma fill_low_bytes: "fill p v = low_bytes (length p) v"
  by (simp add: fill_def low_bytes_def)

lemma chunks_Suc:
  "chunks ord src s (Suc q) =
     uint64_bytes ord (fst (u64 src s)) @ chunks ord src (snd (u64 src s)) q"
proof -
  have "[0..<Suc q] = 0 # map Suc [0..<q]"
    by (simp only: upt_conv_Cons [OF zero_less_Suc] map_Suc_upt)
  then show ?thesis
    unfolding chunks_def
    by (simp only: list.map concat.simps map_map comp_def draws_shift draws.simps(1))
qed

lemma putU64_ok: "8 \<le> length p \<Longrightarrow> putU64 ord p v = Inr (uint64_bytes ord v @ drop 8 p)"
  by (auto simp add: putU64_def)

lemma Fill_small:
  "length p < 8 \<Longrightarrow> Fill ord src p s =
     (Inr (fst (remainder src (length p) s)), snd (remainder src (length p) s))"
  by (simp add: remainder_def fill_low_bytes low_bytes_def case_prod_beta)

lemma Fill_step:
  assumes "8 \<le> length p"
  shows "Fill ord src p s =
     (case Fill ord src (drop 8 p) (snd (u64 src s)) of
        (Inl e, s'') \<Rightarrow> (Inl e, s'')
      | (Inr rest, s'') \<Rightarrow> (Inr (uint64_bytes ord (fst (u64 src s)) @ rest), s''))"
  using assms
  by (subst Fill.simps)
    (simp add: putU64_ok length_uint64_bytes case_prod_beta split: sum.split del: Fill.simps)

lemma Fill_eq:
  "Fill ord src p s =
     (Inr (chunks ord src s (length p div 8)
           @ fst (remainder src (length p mod 8) (after (u64 src) s (length p div 8)))),
      snd (remainder src (length p mod 8) (after (u64 src) s (length p div 8))))"
proof (induction "length p div 8" arbitrary: p s)
  case 0
  then have "length p < 8" by (simp add: div_eq_0_iff)
  then show ?case using 0 by (simp add: Fill_small chunks_def del: Fill.simps)
next
  case (Suc q)
  then have len: "8 \<le> length p" by (metis div_less not_less Zero_not_Suc)
  have "length p div 8 = Suc ((length p - 8) div 8)" using len by (simp add: le_div_geq)
  then have q: "q = length (drop 8 p) div 8" using Suc(2) by simp
  have m: "length (drop 8 p) mod 8 = length p mod 8" using len
    by (simp add: le_mod_geq)
  show ?case
    unfolding Fill_step [OF len] Suc(1) [OF q] m q [symmetric] Suc(2) [symmetric]
    by (simp only: chunks_Suc after_shift append_assoc prod.case sum.case)
qed

lemma length_low_bytes: "length (low_bytes r v) = r"
  by (simp add: low_bytes_def)

lemma length_chunks: "length (chunks ord src s q) = 8 * q"
  by (induction q arbitrary: s) (simp_all add: chunks_def length_uint64_bytes length_concat comp_def sum_list_triv)

lemma length_remainder: "r < 8 \<Longrightarrow> length (fst (remainder src r t)) = r"
  by (simp add: remainder_def length_low_bytes)

lemma Fill_length:
  assumes "Fill ord src p s = (Inr bs, s')"
  shows "length bs = length p"
proof -
  have "bs = chunks ord src s (length p div 8)
           @ fst (remainder src (length p mod 8) (after (u64 src) s (length p div 8)))"
    using assms unfolding Fill_eq by simp
  then have "length bs = 8 * (length p div 8) + length p mod 8"
    by (simp only: length_append length_chunks length_remainder [OF mod_less_divisor [OF zero_less_numeral]])
  then show ?thesis by simp
qed

lemma Fill_same_length:
  "length p' = length p \<Longrightarrow> Fill ord src p' s = Fill ord src p s"
  unfolding Fill_eq by simp

text \<open>
  C5. For every buffer \<open>p\<close>, \<^verbatim>\<open>Fill\<close> does not fail, leaves the length unchanged and
  overwrites every byte (the result is the same as on a zeroed buffer of that length):
  it writes \<open>length p div 8\<close> successive 64-bit draws; for a remainder of 5 to 7 bytes
  the low-order bytes of one more 64-bit draw; for a remainder of 1 to 4 bytes the
  low-order bytes of one 32-bit draw; for remainder 0 it draws nothing further.
\<close>

theorem fill_overwrites_whole_buffer:
  "(length p mod 8 = 0 \<longrightarrow>
      Fill ord src p s =
        (Inr (chunks ord src s (length p div 8)), after (u64 src) s (length p div 8)))
   \<and> (0 < length p mod 8 \<and> length p mod 8 \<le> 4 \<longrightarrow>
      Fill ord src p s =
        (Inr (chunks ord src s (length p div 8)
              @ low_bytes (length p mod 8) (fst (u32 src (after (u64 src) s (length p div 8))))),
         snd (u32 src (after (u64 src) s (length p div 8)))))
   \<and> (4 < length p mod 8 \<longrightarrow>
      Fill ord src p s =
        (Inr (chunks ord src s (length p div 8)
              @ low_bytes (length p mod 8) (fst (u64 src (after (u64 src) s (length p div 8))))),
         snd (u64 src (after (u64 src) s (length p div 8)))))
   \<and> (\<forall>bs s'. Fill ord src p s = (Inr bs, s') \<longrightarrow> length bs = length p)
   \<and> (\<forall>e s'. Fill ord src p s \<noteq> (Inl e, s'))
   \<and> Fill ord src p s = Fill ord src (replicate (length p) 0) s"
  (is "?P1 \<and> ?P2 \<and> ?P3 \<and> ?P4 \<and> ?P5 \<and> ?P6")
proof -
  have 1: ?P1 unfolding Fill_eq by (simp add: remainder_def)
  have 2: ?P2 unfolding Fill_eq by (simp add: remainder_def)
  have 3: ?P3 unfolding Fill_eq by (simp add: remainder_def)
  have 4: ?P4 by (intro allI impI) (rule Fill_length)
  have 5: ?P5 unfolding Fill_eq by simp
  have 6: ?P6 by (rule Fill_same_length [symmetric]) simp
  show ?thesis by (intro conjI 1 2 3 4 5 6)
qed

lemmas fill_eval = chunks_def low_bytes_def uint64_bytes_def replay_def

theorem fill_overwrites_whole_buffer_witness:
  "Fill LittleEndian replay (replicate 13 0xAA) [0x0807060504030201, 0x1122334455667788]
     = (Inr [1, 2, 3, 4, 5, 6, 7, 8, 0x88, 0x77, 0x66, 0x55, 0x44], [])
   \<and> Fill LittleEndian replay (replicate 10 0xAA) [0x0807060504030201, 0x1122334455667788]
     = (Inr [1, 2, 3, 4, 5, 6, 7, 8, 0x88, 0x77], [])
   \<and> Fill BigEndian replay (replicate 8 0xAA) [0x0807060504030201]
     = (Inr [8, 7, 6, 5, 4, 3, 2, 1], [])"
proof -
  let ?s = "[0x0807060504030201, 0x1122334455667788] :: 64 word list"
  have h13: "4 < length (replicate 13 (0xAA :: 8 word)) mod 8" by simp
  have h10: "0 < length (replicate 10 (0xAA :: 8 word)) mod 8
      \<and> length (replicate 10 (0xAA :: 8 word)) mod 8 \<le> 4" by simp
  have h8: "length (replicate 8 (0xAA :: 8 word)) mod 8 = 0" by simp
  note a = fill_overwrites_whole_buffer [of "replicate 13 0xAA" LittleEndian replay ?s,
      THEN conjunct2, THEN conjunct2, THEN conjunct1, THEN mp, OF h13]
  note b = fill_overwrites_whole_buffer [of "replicate 10 0xAA" LittleEndian replay ?s,
      THEN conjunct2, THEN conjunct1, THEN mp, OF h10]
  note c = fill_overwrites_whole_buffer [of "replicate 8 0xAA" BigEndian replay "[0x0807060504030201]",
      THEN conjunct1, THEN mp, OF h8]
  have a': "Fill LittleEndian replay (replicate 13 0xAA) ?s
     = (Inr [1, 2, 3, 4, 5, 6, 7, 8, 0x88, 0x77, 0x66, 0x55, 0x44], [])"
    unfolding a by (simp add: fill_eval upt_rec [of _ "numeral _"] upt_rec [of _ "Suc _"] del: upt_Suc)
  have b': "Fill LittleEndian replay (replicate 10 0xAA) ?s
     = (Inr [1, 2, 3, 4, 5, 6, 7, 8, 0x88, 0x77], [])"
    unfolding b by (simp add: fill_eval upt_rec [of _ "numeral _"] upt_rec [of _ "Suc _"] del: upt_Suc)
  have c': "Fill BigEndian replay (replicate 8 0xAA) [0x0807060504030201]
     = (Inr [8, 7, 6, 5, 4, 3, 2, 1], [])"
    unfolding c by (simp add: fill_eval upt_rec [of _ "numeral _"] upt_rec [of _ "Suc _"] del: upt_Suc)
  show ?thesis by (intro conjI a' b' c')
qed

section \<open>The reader\<close>

text \<open>
  C8. For every buffer \<open>p\<close>, \<^verbatim>\<open>Read\<close> fills all of \<open>p\<close> (the bytes are those \<^verbatim>\<open>Fill\<close>
  writes, as many as \<open>p\<close> has, whatever \<open>p\<close> held before) and returns the pair
  \<^verbatim>\<open>(len(p), nil)\<close>: the count is the length of the buffer and the error is always
  \<^verbatim>\<open>nil\<close>.
\<close>

theorem reader_fills_and_reports_length:
  "Read ord src p s =
     (Inr (chunks ord src s (length p div 8)
             @ fst (remainder src (length p mod 8) (after (u64 src) s (length p div 8))),
           int (length p), None),
      snd (remainder src (length p mod 8) (after (u64 src) s (length p div 8))))
   \<and> length (chunks ord src s (length p div 8)
             @ fst (remainder src (length p mod 8) (after (u64 src) s (length p div 8))))
       = length p
   \<and> Read ord src p s = Read ord src (replicate (length p) 0) s"
  (is "?P1 \<and> ?P2 \<and> ?P3")
proof -
  have 2: ?P2
    by (simp only: length_append length_chunks
        length_remainder [OF mod_less_divisor [OF zero_less_numeral]]) simp
  have 1: ?P1 unfolding Read_def Fill_eq using 2 by simp
  have "Fill ord src p s = Fill ord src (replicate (length p) 0) s"
    by (rule Fill_same_length [symmetric]) simp
  then have 3: ?P3 by (simp only: Read_def)
  show ?thesis by (intro conjI 1 2 3)
qed

section \<open>The 64-bit store\<close>

lemma uint64_bytes_nth_le:
  "i < 8 \<Longrightarrow> uint64_bytes LittleEndian v ! i = ucast (drop_bit (i * 8) v)"
  by (simp add: uint64_bytes_def del: upt_Suc)

lemma uint64_bytes_nth_be:
  "i < 8 \<Longrightarrow> uint64_bytes BigEndian v ! i = ucast (drop_bit ((7 - i) * 8) v)"
proof -
  assume i: "i < 8"
  have "0 + (7 - i) < (8::nat)" by simp
  then have "[0..<8] ! (7 - i) = 0 + (7 - i)" by (rule nth_upt)
  then show ?thesis using i by (simp add: uint64_bytes_def rev_nth del: upt_Suc)
qed

text \<open>
  The store of the default build. \<^verbatim>\<open>putU64\<close> writes the eight bytes of \<open>v\<close> into
  the first eight bytes of a buffer of length at least 8, in the byte order of the
  host, and leaves the rest of the buffer and its length as they are: on a
  little-endian host byte \<open>i\<close> gets \<^verbatim>\<open>v >> (8*i)\<close>, on a big-endian host byte \<open>i\<close> gets
  \<^verbatim>\<open>v >> (8*(7-i))\<close>.
\<close>

theorem putU64_host_byte_order:
  "8 \<le> length p \<longrightarrow>
     putU64 LittleEndian p v = Inr (uint64_bytes LittleEndian v @ drop 8 p)
   \<and> putU64 BigEndian p v = Inr (uint64_bytes BigEndian v @ drop 8 p)
   \<and> (\<forall>i<8. uint64_bytes LittleEndian v ! i = ucast (drop_bit (i * 8) v))
   \<and> (\<forall>i<8. uint64_bytes BigEndian v ! i = ucast (drop_bit ((7 - i) * 8) v))
   \<and> (\<forall>ord. length (uint64_bytes ord v @ drop 8 p) = length p)"
  by (simp add: putU64_ok uint64_bytes_nth_le uint64_bytes_nth_be length_uint64_bytes)

theorem putU64_host_byte_order_witness:
  "putU64 LittleEndian (replicate 9 0xAA) 0x0807060504030201
     = Inr [1, 2, 3, 4, 5, 6, 7, 8, 0xAA]
   \<and> putU64 BigEndian (replicate 9 0xAA) 0x0807060504030201
     = Inr [8, 7, 6, 5, 4, 3, 2, 1, 0xAA]"
proof -
  have h: "8 \<le> length (replicate 9 (0xAA :: 8 word))" by simp
  note inst = putU64_host_byte_order [of "replicate 9 0xAA" "0x0807060504030201", THEN mp, OF h]
  have a: "putU64 LittleEndian (replicate 9 0xAA) 0x0807060504030201
     = Inr [1, 2, 3, 4, 5, 6, 7, 8, 0xAA]"
    unfolding inst [THEN conjunct1]
    by (simp add: uint64_bytes_def upt_rec [of _ "numeral _"] upt_rec [of _ "Suc _"] del: upt_Suc)
  have b: "putU64 BigEndian (replicate 9 0xAA) 0x0807060504030201
     = Inr [8, 7, 6, 5, 4, 3, 2, 1, 0xAA]"
    unfolding inst [THEN conjunct2, THEN conjunct1]
    by (simp add: uint64_bytes_def upt_rec [of _ "numeral _"] upt_rec [of _ "Suc _"] del: upt_Suc)
  show ?thesis by (intro conjI a b)
qed

text \<open>
  On a big-endian host byte 0 of the buffer is the most significant byte of \<open>v\<close>, not
  \<^verbatim>\<open>v >> 0\<close>.
\<close>

theorem putU64_little_endian_counterexample:
  "putU64 BigEndian [0, 0, 0, 0, 0, 0, 0, 0] 1 = Inr [0, 0, 0, 0, 0, 0, 0, 1]
   \<and> (ucast (drop_bit (0 * 8) (1 :: 64 word)) :: 8 word) = 1"
  by (simp add: putU64_def uint64_bytes_def upt_rec [of _ "numeral _"] upt_rec [of _ "Suc _"]
      del: upt_Suc)

section \<open>Properties of Shuffle\<close>

lemma swap_props:
  "swap xs i j = Inr ys \<Longrightarrow> mset ys = mset xs \<and> length ys = length xs"
  by (auto simp add: swap_def mset_swap split: if_splits)

lemma swap_ok:
  "0 \<le> i \<Longrightarrow> i < int (length xs) \<Longrightarrow> 0 \<le> j \<Longrightarrow> j \<le> i \<Longrightarrow>
   swap xs i j = Inr (xs[nat i := xs ! nat j, nat j := xs ! nat i])"
  by (simp add: swap_def)

lemma sint_bound31:
  "0 \<le> i \<Longrightarrow> i < maxInt32 - 1 \<Longrightarrow> sint (word_of_int (i + 1) :: 32 word) = i + 1"
  by (rule sint_of_int_in_range) (simp_all add: maxInt32_def maxUint32_def)

lemma sint_bound63:
  "0 \<le> i \<Longrightarrow> i + 1 \<le> maxInt64 \<Longrightarrow> sint (word_of_int (i + 1) :: 64 word) = i + 1"
  by (rule sint_of_int_in_range) (simp_all add: maxInt64_def maxUint64_def)

lemma sint_bound31':
  "0 \<le> i \<Longrightarrow> i < maxInt32 - 1 \<Longrightarrow> sint (word_of_int i + 1 :: 32 word) = i + 1"
  using sint_bound31 [of i] by simp

lemma sint_bound63':
  "0 \<le> i \<Longrightarrow> i + 1 \<le> maxInt64 \<Longrightarrow> sint (word_of_int i + 1 :: 64 word) = i + 1"
  using sint_bound63 [of i] by simp

lemma Int31n_index:
  assumes "0 \<le> i" "i < maxInt32 - 1"
    and "Int31n src (word_of_int (i + 1)) s = Some (Inr j, s')"
  shows "0 \<le> sint j \<and> sint j \<le> i"
proof -
  have "0 \<le>s j \<and> j <s word_of_int (i + 1)" using assms(3) by (rule Int31n_range)
  then have "0 \<le> sint j \<and> sint j < sint (word_of_int (i + 1) :: 32 word)"
    by (simp add: word_sle_eq word_sless_alt)
  then show ?thesis by (simp add: sint_bound31' [OF assms(1,2)])
qed

lemma Int63n_index:
  assumes "0 \<le> i" "i + 1 \<le> maxInt64"
    and "Int63n src (word_of_int (i + 1)) s = Some (Inr j, s')"
  shows "0 \<le> sint j \<and> sint j \<le> i"
proof -
  have "0 \<le>s j \<and> j <s word_of_int (i + 1)" using assms(3) by (rule Int63n_range)
  then have "0 \<le> sint j \<and> sint j < sint (word_of_int (i + 1) :: 64 word)"
    by (simp add: word_sle_eq word_sless_alt)
  then show ?thesis by (simp add: sint_bound63' [OF assms(1,2)])
qed

lemma Int31n_no_panic:
  "0 \<le> i \<Longrightarrow> i < maxInt32 - 1 \<Longrightarrow> Int31n src (word_of_int (i + 1)) s \<noteq> Some (Inl e, s')"
  by (simp add: Int31n_def word_sle_eq sint_bound31' case_prod_beta split: option.split)

lemma Int63n_no_panic:
  "0 \<le> i \<Longrightarrow> i + 1 \<le> maxInt64 \<Longrightarrow> Int63n src (word_of_int (i + 1)) s \<noteq> Some (Inl e, s')"
  by (simp add: Int63n_def word_sle_eq sint_bound63' case_prod_beta split: option.split)

lemma Shuffle_loop31_done: "i \<le> 0 \<Longrightarrow> Shuffle_loop31 src i xs s = Some (Inr xs, s)"
  by (subst Shuffle_loop31.simps) simp

lemma Shuffle_loop31_step:
  assumes "0 < i" "i < maxInt32 - 1" "i < int (length xs)"
    and "Int31n src (word_of_int (i + 1)) s = Some (Inr j, s')"
  shows "Shuffle_loop31 src i xs s =
     Shuffle_loop31 src (i - 1) (xs[nat i := xs ! nat (sint j), nat (sint j) := xs ! nat i]) s'"
proof -
  have i0: "0 \<le> i" using assms(1) by simp
  have j: "0 \<le> sint j" "sint j \<le> i" using Int31n_index [OF i0 assms(2,4)] by simp_all
  have "swap xs i (sint j) = Inr (xs[nat i := xs ! nat (sint j), nat (sint j) := xs ! nat i])"
    using i0 assms(3) j by (rule swap_ok)
  then show ?thesis using assms(1,4) by (subst Shuffle_loop31.simps) simp
qed

lemma Shuffle_loop31_inv:
  "i < int (length xs) \<Longrightarrow> i < maxInt32 - 1 \<Longrightarrow> Shuffle_loop31 src i xs s = Some (r, s') \<Longrightarrow>
   \<exists>ys. r = Inr ys \<and> mset ys = mset xs"
proof (induction "nat i" arbitrary: i xs s)
  case 0
  then have "i \<le> 0" by simp
  then show ?case using 0(4) by (auto simp add: Shuffle_loop31_done)
next
  case (Suc k)
  then have i: "0 < i" "0 \<le> i" by simp_all
  obtain oc where oc: "Int31n src (word_of_int (i + 1)) s = Some oc"
    using Suc(5) i(1) by (subst (asm) Shuffle_loop31.simps) (auto split: option.splits)
  obtain a t where at: "oc = (a, t)" by (cases oc)
  obtain j where a: "a = Inr j"
    using Int31n_no_panic [OF i(2) Suc(4), of src s _ t] oc at by (cases a) auto
  note st = Shuffle_loop31_step [OF i(1) Suc(4) Suc(3) oc [unfolded at a]]
  let ?xs' = "xs[nat i := xs ! nat (sint j), nat (sint j) := xs ! nat i]"
  have jb: "0 \<le> sint j" "sint j \<le> i"
    using Int31n_index [OF i(2) Suc(4) oc [unfolded at a]] by simp_all
  have m: "mset ?xs' = mset xs"
    using jb i Suc(3) by (simp add: mset_swap)
  have "k = nat (i - 1)" using Suc(2) by simp
  moreover have "i - 1 < int (length ?xs')" using Suc(3) by simp
  moreover have "i - 1 < maxInt32 - 1" using Suc(4) by simp
  moreover have "Shuffle_loop31 src (i - 1) ?xs' t = Some (r, s')" using Suc(5) st by simp
  ultimately have "\<exists>ys. r = Inr ys \<and> mset ys = mset ?xs'" by (rule Suc(1))
  then show ?case by (simp only: m)
qed

lemma Shuffle_loop63_skip:
  "i < maxInt32 - 1 \<Longrightarrow> Shuffle_loop63 src i xs s = Some (Inr (i, xs), s)"
  by (subst Shuffle_loop63.simps) simp

lemma Shuffle_loop63_step:
  assumes "maxInt32 - 1 \<le> i" "i + 1 \<le> maxInt64" "i < int (length xs)"
    and "Int63n src (word_of_int (i + 1)) s = Some (Inr j, s')"
  shows "Shuffle_loop63 src i xs s =
     Shuffle_loop63 src (i - 1) (xs[nat i := xs ! nat (sint j), nat (sint j) := xs ! nat i]) s'"
proof -
  have i0: "0 \<le> i" using assms(1) by (simp add: maxInt32_def maxUint32_def)
  have j: "0 \<le> sint j" "sint j \<le> i" using Int63n_index [OF i0 assms(2,4)] by simp_all
  have "swap xs i (sint j) = Inr (xs[nat i := xs ! nat (sint j), nat (sint j) := xs ! nat i])"
    using i0 assms(3) j by (rule swap_ok)
  then show ?thesis using assms(1,4) by (subst Shuffle_loop63.simps) simp
qed

lemma Shuffle_loop63_inv:
  "i < int (length xs) \<Longrightarrow> i + 1 \<le> maxInt64 \<Longrightarrow> Shuffle_loop63 src i xs s = Some (r, s') \<Longrightarrow>
   \<exists>i' ys. r = Inr (i', ys) \<and> mset ys = mset xs \<and> length ys = length xs
     \<and> i' \<le> i \<and> i' < maxInt32 - 1"
proof (induction "nat i" arbitrary: i xs s)
  case 0
  then have "i < maxInt32 - 1" by (simp add: maxInt32_def maxUint32_def)
  then show ?case using 0(4) by (auto simp add: Shuffle_loop63_skip)
next
  case (Suc k)
  show ?case
  proof (cases "i < maxInt32 - 1")
    case True
    then show ?thesis using Suc(5) by (auto simp add: Shuffle_loop63_skip)
  next
    case False
    then have big: "maxInt32 - 1 \<le> i" by simp
    then have i: "0 \<le> i" by (simp add: maxInt32_def maxUint32_def)
    obtain oc where oc: "Int63n src (word_of_int (i + 1)) s = Some oc"
      using Suc(5) big by (subst (asm) Shuffle_loop63.simps) (auto split: option.splits)
    obtain a t where at: "oc = (a, t)" by (cases oc)
    obtain j where a: "a = Inr j"
      using Int63n_no_panic [OF i Suc(4), of src s _ t] oc at by (cases a) auto
    note st = Shuffle_loop63_step [OF big Suc(4) Suc(3) oc [unfolded at a]]
    let ?xs' = "xs[nat i := xs ! nat (sint j), nat (sint j) := xs ! nat i]"
    have jb: "0 \<le> sint j" "sint j \<le> i"
      using Int63n_index [OF i Suc(4) oc [unfolded at a]] by simp_all
    have m: "mset ?xs' = mset xs" "length ?xs' = length xs"
      using jb i Suc(3) by (simp_all add: mset_swap)
    have "k = nat (i - 1)" using Suc(2) by simp
    moreover have "i - 1 < int (length ?xs')" using Suc(3) by simp
    moreover have "i - 1 + 1 \<le> maxInt64" using Suc(4) by simp
    moreover have "Shuffle_loop63 src (i - 1) ?xs' t = Some (r, s')" using Suc(5) st by simp
    ultimately have "\<exists>i' ys. r = Inr (i', ys) \<and> mset ys = mset ?xs' \<and> length ys = length ?xs'
        \<and> i' \<le> i - 1 \<and> i' < maxInt32 - 1" by (rule Suc(1))
    then show ?thesis unfolding m by auto
  qed
qed

lemma Shuffle_inv:
  assumes len: "int (length xs) \<le> maxInt64" and run: "Shuffle src xs s = Some (r, s')"
  shows "\<exists>ys. r = Inr ys \<and> mset ys = mset xs"
proof -
  obtain oc where oc: "Shuffle_loop63 src (int (length xs) - 1) xs s = Some oc"
    using run by (auto simp add: Shuffle_def split: option.splits)
  obtain r1 s1 where r1: "oc = (r1, s1)" by (cases oc)
  have "int (length xs) - 1 < int (length xs)" by simp
  moreover have "int (length xs) - 1 + 1 \<le> maxInt64" using len by simp
  ultimately obtain i' ys where inv: "r1 = Inr (i', ys)" "mset ys = mset xs"
      "length ys = length xs" "i' \<le> int (length xs) - 1" "i' < maxInt32 - 1"
    using Shuffle_loop63_inv [OF _ _ oc [unfolded r1]] by blast
  have a: "Shuffle_loop31 src i' ys s1 = Some (r, s')"
    using run oc r1 inv(1) by (simp add: Shuffle_def)
  have b: "i' < int (length ys)" using inv(3,4) by simp
  have "\<exists>zs. r = Inr zs \<and> mset zs = mset ys"
    using b inv(5) a by (rule Shuffle_loop31_inv)
  then show ?thesis by (simp only: inv(2))
qed

lemma Shuffle_small:
  "int (length xs) < maxInt32 \<Longrightarrow>
   Shuffle src xs s = Shuffle_loop31 src (int (length xs) - 1) xs s"
  by (simp add: Shuffle_def Shuffle_loop63_skip)

lemma Shuffle_trivial: "length xs \<le> 1 \<Longrightarrow> Shuffle src xs s = Some (Inr xs, s)"
proof -
  assume l: "length xs \<le> 1"
  then have "int (length xs) < maxInt32" by (simp add: maxInt32_def maxUint32_def)
  then have "Shuffle src xs s = Shuffle_loop31 src (int (length xs) - 1) xs s"
    by (rule Shuffle_small)
  also have "\<dots> = Some (Inr xs, s)" using l by (simp add: Shuffle_loop31_done)
  finally show ?thesis .
qed

lemma Shuffle_loop31_returns:
  assumes ret: "\<forall>n t. Int31n src n t \<noteq> None"
  shows "i < int (length xs) \<Longrightarrow> i < maxInt32 - 1 \<Longrightarrow> Shuffle_loop31 src i xs s \<noteq> None"
proof (induction "nat i" arbitrary: i xs s)
  case 0
  then have "i \<le> 0" by simp
  then show ?case by (simp add: Shuffle_loop31_done)
next
  case (Suc k)
  then have i: "0 < i" "0 \<le> i" by simp_all
  obtain oc where oc: "Int31n src (word_of_int (i + 1)) s = Some oc"
    using ret by (meson option.exhaust)
  obtain a t where at: "oc = (a, t)" by (cases oc)
  obtain j where a: "a = Inr j"
    using Int31n_no_panic [OF i(2) Suc(4), of src s _ t] oc at by (cases a) auto
  note st = Shuffle_loop31_step [OF i(1) Suc(4) Suc(3) oc [unfolded at a]]
  let ?xs' = "xs[nat i := xs ! nat (sint j), nat (sint j) := xs ! nat i]"
  have "k = nat (i - 1)" using Suc(2) by simp
  moreover have "i - 1 < int (length ?xs')" using Suc(3) by simp
  moreover have "i - 1 < maxInt32 - 1" using Suc(4) by simp
  ultimately have "Shuffle_loop31 src (i - 1) ?xs' t \<noteq> None" by (rule Suc(1))
  then show ?case unfolding st .
qed

lemma Shuffle_loop63_returns:
  assumes ret: "\<forall>n t. Int63n src n t \<noteq> None"
  shows "i < int (length xs) \<Longrightarrow> i + 1 \<le> maxInt64 \<Longrightarrow> Shuffle_loop63 src i xs s \<noteq> None"
proof (induction "nat i" arbitrary: i xs s)
  case 0
  then have "i < maxInt32 - 1" by (simp add: maxInt32_def maxUint32_def)
  then show ?case by (simp add: Shuffle_loop63_skip)
next
  case (Suc k)
  show ?case
  proof (cases "i < maxInt32 - 1")
    case True
    then show ?thesis by (simp add: Shuffle_loop63_skip)
  next
    case False
    then have big: "maxInt32 - 1 \<le> i" by simp
    then have i: "0 \<le> i" by (simp add: maxInt32_def maxUint32_def)
    obtain oc where oc: "Int63n src (word_of_int (i + 1)) s = Some oc"
      using ret by (meson option.exhaust)
    obtain a t where at: "oc = (a, t)" by (cases oc)
    obtain j where a: "a = Inr j"
      using Int63n_no_panic [OF i Suc(4), of src s _ t] oc at by (cases a) auto
    note st = Shuffle_loop63_step [OF big Suc(4) Suc(3) oc [unfolded at a]]
    let ?xs' = "xs[nat i := xs ! nat (sint j), nat (sint j) := xs ! nat i]"
    have "k = nat (i - 1)" using Suc(2) by simp
    moreover have "i - 1 < int (length ?xs')" using Suc(3) by simp
    moreover have "i - 1 + 1 \<le> maxInt64" using Suc(4) by simp
    ultimately have "Shuffle_loop63 src (i - 1) ?xs' t \<noteq> None" by (rule Suc(1))
    then show ?thesis unfolding st .
  qed
qed

lemma Shuffle_returns:
  assumes r31: "\<forall>n t. Int31n src n t \<noteq> None" and r63: "\<forall>n t. Int63n src n t \<noteq> None"
    and len: "int (length xs) \<le> maxInt64"
  shows "\<exists>ys s'. Shuffle src xs s = Some (Inr ys, s')"
proof -
  have l1: "int (length xs) - 1 < int (length xs)" by simp
  have l2: "int (length xs) - 1 + 1 \<le> maxInt64" using len by simp
  obtain oc where oc: "Shuffle_loop63 src (int (length xs) - 1) xs s = Some oc"
    using Shuffle_loop63_returns [OF r63 l1 l2, of s] by (meson option.exhaust)
  obtain r1 s1 where r1: "oc = (r1, s1)" by (cases oc)
  obtain i' ys where inv: "r1 = Inr (i', ys)" "mset ys = mset xs"
      "length ys = length xs" "i' \<le> int (length xs) - 1" "i' < maxInt32 - 1"
    using Shuffle_loop63_inv [OF l1 l2 oc [unfolded r1]] by blast
  have sh: "Shuffle src xs s = Shuffle_loop31 src i' ys s1"
    using oc r1 inv(1) by (simp add: Shuffle_def)
  have b: "i' < int (length ys)" using inv(3,4) by simp
  obtain oc2 where oc2: "Shuffle_loop31 src i' ys s1 = Some oc2"
    using Shuffle_loop31_returns [OF r31 b inv(5), of s1] by (meson option.exhaust)
  obtain r2 s2 where r2: "oc2 = (r2, s2)" by (cases oc2)
  obtain zs where "r2 = Inr zs"
    using Shuffle_loop31_inv [OF b inv(5) oc2 [unfolded r2]] by blast
  then show ?thesis using sh oc2 r2 by simp
qed

lemma Int31n_max_pos:
  assumes pos: "\<not> n \<le>s 0" and np: "n AND (n - 1) \<noteq> 0"
  shows "0 <s Int31n_max n"
proof -
  have n: "0 \<le>s n" using pos_word [OF pos] by simp
  have su: "sint n = uint n" using n by (simp add: word_sle_eq sint_nonneg_eq_uint)
  have ui: "uint n = int (unat n)" by (rule uint_nat)
  have "sint n < 2 ^ 31" using sint_less [of n] by simp
  then have "int (unat n) < 2 ^ 31" by (simp only: su ui)
  then have "int (unat n) < int (2 ^ 31)" by simp
  then have un: "unat n < 2 ^ 31" by (simp only: of_nat_less_iff)
  have mx: "nat maxInt32 + 1 = 2 ^ 31" by (simp add: maxInt32_def maxUint32_def)
  have "nat maxInt32 + 1 < unat (Int31n_max n) + unat n"
    using Int31n_max_largest [OF pos np] by (simp only: largest_multiple_upto_def)
  then have "0 < unat (Int31n_max n)" unfolding mx using un by linarith
  then have "0 < Int31n_max n" by (simp add: word_less_nat_alt)
  then show ?thesis
    using sless_nonneg_iff [of 0 "Int31n_max n"] Int31n_max_nonneg [OF pos] by simp
qed

lemma Int63n_max_pos:
  assumes pos: "\<not> n \<le>s 0" and np: "n AND (n - 1) \<noteq> 0"
  shows "0 <s Int63n_max n"
proof -
  have n: "0 \<le>s n" using pos_word [OF pos] by simp
  have su: "sint n = uint n" using n by (simp add: word_sle_eq sint_nonneg_eq_uint)
  have ui: "uint n = int (unat n)" by (rule uint_nat)
  have "sint n < 2 ^ 63" using sint_less [of n] by simp
  then have "int (unat n) < 2 ^ 63" by (simp only: su ui)
  then have "int (unat n) < int (2 ^ 63)" by simp
  then have un: "unat n < 2 ^ 63" by (simp only: of_nat_less_iff)
  have mx: "nat maxInt64 + 1 = 2 ^ 63" by (simp add: maxInt64_def maxUint64_def)
  have "nat maxInt64 + 1 < unat (Int63n_max n) + unat n"
    using Int63n_max_largest [OF pos np] by (simp only: largest_multiple_upto_def)
  then have "0 < unat (Int63n_max n)" unfolding mx using un by linarith
  then have "0 < Int63n_max n" by (simp add: word_less_nat_alt)
  then show ?thesis
    using sless_nonneg_iff [of 0 "Int63n_max n"] Int63n_max_nonneg [OF pos] by simp
qed

lemma zeros_Int31n: "Int31n zeros n t \<noteq> None"
proof (cases "\<not> n \<le>s 0 \<and> n AND (n - 1) \<noteq> 0")
  case True
  then have pos: "\<not> n \<le>s 0" and np: "n AND (n - 1) \<noteq> 0" by simp_all
  have "first_accepted (Int31 zeros) (\<lambda>v. v <s Int31n_max n) t 0"
    using Int31n_max_pos [OF pos np] by (simp add: first_accepted_def Int31_def zeros_def)
  then have "Int31n zeros n t =
      Some (Inr (srem (fst (draws (Int31 zeros) t 0)) n), snd (draws (Int31 zeros) t 0))"
    by (rule Int31n_first [OF pos np])
  then show ?thesis by simp
next
  case False
  then show ?thesis by (auto simp add: Int31n_def case_prod_beta)
qed

lemma zeros_Int63n: "Int63n zeros n t \<noteq> None"
proof (cases "\<not> n \<le>s 0 \<and> n AND (n - 1) \<noteq> 0")
  case True
  then have pos: "\<not> n \<le>s 0" and np: "n AND (n - 1) \<noteq> 0" by simp_all
  have "first_accepted (Int63 zeros) (\<lambda>v. v <s Int63n_max n) t 0"
    using Int63n_max_pos [OF pos np] by (simp add: first_accepted_def Int63_def zeros_def)
  then have "Int63n zeros n t =
      Some (Inr (srem (fst (draws (Int63 zeros) t 0)) n), snd (draws (Int63 zeros) t 0))"
    by (rule Int63n_first [OF pos np])
  then show ?thesis by simp
next
  case False
  then show ?thesis by (auto simp add: Int63n_def case_prod_beta)
qed

text \<open>
  C6. For every slice, \<^verbatim>\<open>Shuffle\<close> runs its first loop from index \<open>len - 1\<close> and hands
  the index and the slice to the second; the first loop does nothing below
  \<open>maxInt32 - 1\<close>, so a slice shorter than \<open>maxInt32\<close> goes through the second loop
  only. At index \<open>i\<close> a loop draws \<open>j\<close> in \<open>[0, i + 1)\<close> from a bounded sampler
  (\<^verbatim>\<open>Int63n\<close> in the first loop, so at the first step of a slice of \<open>maxInt32\<close> or more
  elements, \<^verbatim>\<open>Int31n\<close> in the second), swaps the elements at \<open>i\<close> and \<open>j\<close> and goes on
  with \<open>i - 1\<close>; at index 0 it stops. Whatever \<^verbatim>\<open>Shuffle\<close> returns is a permutation of
  the input (the same multiset), it never panics, it returns whenever the samplers
  return, and on an empty or one-element slice it returns the slice as it is,
  without a draw.
\<close>

theorem shuffle_is_permutation:
  "int (length xs) \<le> maxInt64 \<longrightarrow>
     (\<forall>ys s'. Shuffle src xs s = Some (Inr ys, s') \<longrightarrow> mset ys = mset xs)
   \<and> (\<forall>e s'. Shuffle src xs s \<noteq> Some (Inl e, s'))
   \<and> (length xs \<le> 1 \<longrightarrow> Shuffle src xs s = Some (Inr xs, s))
   \<and> (int (length xs) < maxInt32 \<longrightarrow>
        Shuffle src xs s = Shuffle_loop31 src (int (length xs) - 1) xs s)
   \<and> (\<forall>i j t t'. 0 < i \<and> i < maxInt32 - 1 \<and> i < int (length xs)
          \<and> Int31n src (word_of_int (i + 1)) t = Some (Inr j, t') \<longrightarrow>
        0 \<le> sint j \<and> sint j < i + 1
        \<and> Shuffle_loop31 src i xs t =
            Shuffle_loop31 src (i - 1) (xs[nat i := xs ! nat (sint j), nat (sint j) := xs ! nat i]) t')
   \<and> (\<forall>i j t t'. maxInt32 - 1 \<le> i \<and> i + 1 \<le> maxInt64 \<and> i < int (length xs)
          \<and> Int63n src (word_of_int (i + 1)) t = Some (Inr j, t') \<longrightarrow>
        0 \<le> sint j \<and> sint j < i + 1
        \<and> Shuffle_loop63 src i xs t =
            Shuffle_loop63 src (i - 1) (xs[nat i := xs ! nat (sint j), nat (sint j) := xs ! nat i]) t')
   \<and> (\<forall>t. Shuffle_loop31 src 0 xs t = Some (Inr xs, t))
   \<and> Shuffle src xs s =
       (case Shuffle_loop63 src (int (length xs) - 1) xs s of
          None \<Rightarrow> None
        | Some (Inl e, s') \<Rightarrow> Some (Inl e, s')
        | Some (Inr (i, xs'), s') \<Rightarrow> Shuffle_loop31 src i xs' s')
   \<and> (\<forall>i t. i < maxInt32 - 1 \<longrightarrow> Shuffle_loop63 src i xs t = Some (Inr (i, xs), t))
   \<and> (\<forall>j s'. maxInt32 \<le> int (length xs)
          \<and> Int63n src (word_of_int (int (length xs))) s = Some (Inr j, s') \<longrightarrow>
        0 \<le> sint j \<and> sint j < int (length xs)
        \<and> Shuffle src xs s =
            (case Shuffle_loop63 src (int (length xs) - 2)
                    (xs[nat (int (length xs) - 1) := xs ! nat (sint j),
                        nat (sint j) := xs ! nat (int (length xs) - 1)]) s' of
               None \<Rightarrow> None
             | Some (Inl e, s'') \<Rightarrow> Some (Inl e, s'')
             | Some (Inr (i, xs'), s'') \<Rightarrow> Shuffle_loop31 src i xs' s''))
   \<and> ((\<forall>n t. Int31n src n t \<noteq> None) \<and> (\<forall>n t. Int63n src n t \<noteq> None) \<longrightarrow>
        (\<exists>ys s'. Shuffle src xs s = Some (Inr ys, s')))"
  (is "?H \<longrightarrow> ?P1 \<and> ?P2 \<and> ?P3 \<and> ?P4 \<and> ?P5 \<and> ?P6 \<and> ?P7 \<and> ?P8 \<and> ?P9 \<and> ?P10 \<and> ?P11")
proof (rule impI)
  assume len: ?H
  have 1: ?P1
  proof (intro allI impI)
    fix ys s' assume "Shuffle src xs s = Some (Inr ys, s')"
    from Shuffle_inv [OF len this] show "mset ys = mset xs" by simp
  qed
  have 2: ?P2
  proof (intro allI notI)
    fix e s' assume "Shuffle src xs s = Some (Inl e, s')"
    from Shuffle_inv [OF len this] show False by simp
  qed
  have 3: ?P3 by (rule impI) (rule Shuffle_trivial)
  have 4: ?P4 by (rule impI) (rule Shuffle_small)
  have 5: ?P5
  proof (intro allI impI, elim conjE)
    fix i j t t'
    assume a: "0 < i" "i < maxInt32 - 1" "i < int (length xs)"
      "Int31n src (word_of_int (i + 1)) t = Some (Inr j, t')"
    from a(1) have i0: "0 \<le> i" by simp
    have "0 \<le> sint j \<and> sint j \<le> i" using i0 a(2,4) by (rule Int31n_index)
    then have "0 \<le> sint j \<and> sint j < i + 1" by simp
    moreover note Shuffle_loop31_step [OF a]
    ultimately show "0 \<le> sint j \<and> sint j < i + 1
        \<and> Shuffle_loop31 src i xs t =
            Shuffle_loop31 src (i - 1) (xs[nat i := xs ! nat (sint j), nat (sint j) := xs ! nat i]) t'"
      by (simp only: simp_thms)
  qed
  have 6: ?P6
  proof (intro allI impI, elim conjE)
    fix i j t t'
    assume a: "maxInt32 - 1 \<le> i" "i + 1 \<le> maxInt64" "i < int (length xs)"
      "Int63n src (word_of_int (i + 1)) t = Some (Inr j, t')"
    from a(1) have i0: "0 \<le> i" by (simp add: maxInt32_def maxUint32_def)
    have "0 \<le> sint j \<and> sint j \<le> i" using i0 a(2,4) by (rule Int63n_index)
    then have "0 \<le> sint j \<and> sint j < i + 1" by simp
    moreover note Shuffle_loop63_step [OF a]
    ultimately show "0 \<le> sint j \<and> sint j < i + 1
        \<and> Shuffle_loop63 src i xs t =
            Shuffle_loop63 src (i - 1) (xs[nat i := xs ! nat (sint j), nat (sint j) := xs ! nat i]) t'"
      by (simp only: simp_thms)
  qed
  have 7: ?P7 by (rule allI) (rule Shuffle_loop31_done, simp)
  have 8: ?P8 by (rule Shuffle_def)
  have 9: ?P9 by (intro allI impI) (rule Shuffle_loop63_skip)
  have 10: ?P10
  proof (intro allI impI, elim conjE)
    fix j s'
    assume big: "maxInt32 \<le> int (length xs)"
      and dr: "Int63n src (word_of_int (int (length xs))) s = Some (Inr j, s')"
    define i where "i = int (length xs) - 1"
    have i1: "i + 1 = int (length xs)" and i2: "i - 1 = int (length xs) - 2" by (simp_all add: i_def)
    have a: "maxInt32 - 1 \<le> i" using big by (simp add: i_def)
    have b: "i + 1 \<le> maxInt64" using len by (simp add: i_def)
    have c: "i < int (length xs)" by (simp add: i_def)
    have d: "Int63n src (word_of_int (i + 1)) s = Some (Inr j, s')" using dr by (simp only: i1)
    have i0: "0 \<le> i" using a by (simp add: maxInt32_def maxUint32_def)
    have jb: "0 \<le> sint j \<and> sint j \<le> i" using i0 b d by (rule Int63n_index)
    then have jb': "0 \<le> sint j \<and> sint j < int (length xs)" by (simp add: i_def)
    have st: "Shuffle_loop63 src i xs s =
        Shuffle_loop63 src (i - 1) (xs[nat i := xs ! nat (sint j), nat (sint j) := xs ! nat i]) s'"
      using a b c d by (rule Shuffle_loop63_step)
    have "Shuffle src xs s =
        (case Shuffle_loop63 src (i - 1) (xs[nat i := xs ! nat (sint j), nat (sint j) := xs ! nat i]) s' of
           None \<Rightarrow> None
         | Some (Inl e, s'') \<Rightarrow> Some (Inl e, s'')
         | Some (Inr (i, xs'), s'') \<Rightarrow> Shuffle_loop31 src i xs' s'')"
      unfolding Shuffle_def i_def [symmetric] st ..
    then show "0 \<le> sint j \<and> sint j < int (length xs)
        \<and> Shuffle src xs s =
            (case Shuffle_loop63 src (int (length xs) - 2)
                    (xs[nat (int (length xs) - 1) := xs ! nat (sint j),
                        nat (sint j) := xs ! nat (int (length xs) - 1)]) s' of
               None \<Rightarrow> None
             | Some (Inl e, s'') \<Rightarrow> Some (Inl e, s'')
             | Some (Inr (i, xs'), s'') \<Rightarrow> Shuffle_loop31 src i xs' s'')"
      using jb' unfolding i2 unfolding i_def by (simp only: simp_thms)
  qed
  have 11: ?P11
  proof (rule impI, elim conjE)
    assume "\<forall>n t. Int31n src n t \<noteq> None" and "\<forall>n t. Int63n src n t \<noteq> None"
    then show "\<exists>ys s'. Shuffle src xs s = Some (Inr ys, s')" using len by (rule Shuffle_returns)
  qed
  show "?P1 \<and> ?P2 \<and> ?P3 \<and> ?P4 \<and> ?P5 \<and> ?P6 \<and> ?P7 \<and> ?P8 \<and> ?P9 \<and> ?P10 \<and> ?P11"
    by (intro conjI 1 2 3 4 5 6 7 8 9 10 11)
qed

theorem shuffle_is_permutation_witness:
  "Shuffle replay [1, 2, 3 :: nat] [2, 0] = Some (Inr [3, 1, 2], [])
   \<and> mset [3, 1, 2 :: nat] = mset [1, 2, 3]
   \<and> Shuffle replay [7 :: nat] [2, 0] = Some (Inr [7], [2, 0])
   \<and> (\<exists>ys s'. Shuffle zeros (replicate 2147483647 (0 :: nat)) () = Some (Inr ys, s'))"
proof -
  have len: "int (length [1, 2, 3 :: nat]) \<le> maxInt64"
    by (simp add: maxInt64_def maxUint64_def)
  have len1: "int (length [7 :: nat]) \<le> maxInt64"
    by (simp add: maxInt64_def maxUint64_def)
  note inst = shuffle_is_permutation [of "[1, 2, 3 :: nat]" replay "[2, 0]", THEN mp, OF len]
  note inst1 = shuffle_is_permutation [of "[7 :: nat]" replay "[2, 0]", THEN mp, OF len1]
  have f: "first_accepted (Int31 replay) (\<lambda>v. v <s Int31n_max 3) [2, 0] 0"
    by (simp add: eval_defs)
  have d1: "Int31n replay (word_of_int (2 + 1)) [2, 0] = Some (Inr 1, [0])"
    using Int31n_first [OF _ _ f] by (simp add: eval_defs)
  have d2: "Int31n replay (word_of_int (1 + 1)) [0] = Some (Inr 0, [])"
    by (simp add: Int31n_def Int31_def replay_def word_sle_eq)
  have small: "int (length [1, 2, 3 :: nat]) < maxInt32"
    by (simp add: maxInt32_def maxUint32_def)
  have h2: "(0::int) < 2 \<and> 2 < maxInt32 - 1 \<and> 2 < int (length [1, 2, 3 :: nat])
      \<and> Int31n replay (word_of_int (2 + 1)) [2, 0] = Some (Inr 1, [0])"
    using d1 by (simp add: maxInt32_def maxUint32_def)
  have h1: "(0::int) < 1 \<and> 1 < maxInt32 - 1 \<and> 1 < int (length [1, 3, 2 :: nat])
      \<and> Int31n replay (word_of_int (1 + 1)) [0] = Some (Inr 0, [])"
    using d2 by (simp add: maxInt32_def maxUint32_def)
  note inst' = shuffle_is_permutation [of "[1, 3, 2 :: nat]" replay "[2, 0]", THEN mp]
  have run: "Shuffle replay [1, 2, 3 :: nat] [2, 0] = Some (Inr [3, 1, 2], [])"
    using inst [THEN conjunct2, THEN conjunct2, THEN conjunct2, THEN conjunct1, THEN mp, OF small]
      inst [THEN conjunct2, THEN conjunct2, THEN conjunct2, THEN conjunct2, THEN conjunct1,
        THEN spec, THEN spec, THEN spec, THEN spec, THEN mp, OF h2]
      Shuffle_loop31_step [of 1 "[1, 3, 2 :: nat]" replay "[0]" 0 "[]"] h1
    by (simp add: Shuffle_loop31_done)
  note perm = inst [THEN conjunct1, THEN spec, THEN spec, THEN mp, OF run]
  have l1: "length [7 :: nat] \<le> 1" by simp
  note triv = inst1 [THEN conjunct2, THEN conjunct2, THEN conjunct1, THEN mp, OF l1]
  have lenz: "int (length (replicate 2147483647 (0 :: nat))) \<le> maxInt64"
    by (simp add: maxInt64_def maxUint64_def)
  have fair: "(\<forall>n t. Int31n zeros n t \<noteq> None) \<and> (\<forall>n t. Int63n zeros n t \<noteq> None)"
    by (intro conjI allI zeros_Int31n zeros_Int63n)
  note long = shuffle_is_permutation [of "replicate 2147483647 (0 :: nat)" zeros "()", THEN mp, OF lenz,
      THEN conjunct2, THEN conjunct2, THEN conjunct2, THEN conjunct2, THEN conjunct2,
      THEN conjunct2, THEN conjunct2, THEN conjunct2, THEN conjunct2, THEN conjunct2,
      THEN mp, OF fair]
  show ?thesis by (intro conjI run perm triv long)
qed

section \<open>Properties of the floating-point functions\<close>


lemma rne_of_int: "rne (of_int n) = n"
  by (simp add: rne_def)

lemma two_powi_pos: "0 < power_int (2::rat) k"
  by (simp add: zero_less_power_int)

lemma two_powi_split: "power_int (2::rat) (a + b) = power_int 2 a * power_int 2 b"
  by (simp add: power_int_add)

lemma flog2_le:
  assumes "0 < x"
  shows "power_int 2 (flog2 x) \<le> x"
proof -
  obtain a b where q: "quotient_of x = (a, b)" by (cases "quotient_of x")
  have b: "0 < b" using q by (rule quotient_of_denom_pos)
  have x: "x = of_int a / of_int b" using q by (rule quotient_of_div)
  have a: "0 < a" using assms b unfolding x by (simp add: zero_less_divide_iff)
  define d where "d = bitlen a - bitlen b"
  show ?thesis
  proof (cases "power_int 2 d \<le> x")
    case True
    then show ?thesis by (simp add: flog2_def q d_def)
  next
    case False
    have la: "(2::int) ^ nat (bitlen a - 1) \<le> a" using bitlen_bounds [OF a] by simp
    have lb: "b < 2 ^ nat (bitlen b)" using bitlen_bounds [OF b] by simp
    have pa: "0 \<le> bitlen a - 1" using a by (simp add: bitlen_alt_def)
    have pb: "0 \<le> bitlen b" by (rule bitlen_nonneg)
    have "power_int (2::rat) (bitlen a - 1) \<le> of_int a"
    proof -
      have "of_int ((2::int) ^ nat (bitlen a - 1)) \<le> (of_int a :: rat)" using la by (simp only: of_int_le_iff)
      then show ?thesis using pa by (simp add: power_int_nonneg_exp)
    qed
    moreover have "(of_int b :: rat) \<le> power_int 2 (bitlen b)"
    proof -
      have "(of_int b :: rat) \<le> of_int ((2::int) ^ nat (bitlen b))" using lb by (simp only: of_int_le_iff less_imp_le)
      then show ?thesis using pb by (simp add: power_int_nonneg_exp)
    qed
    ultimately have "power_int (2::rat) (bitlen a - 1) / power_int 2 (bitlen b) \<le> of_int a / of_int b"
      using b a by (intro frac_le) (simp_all add: two_powi_pos less_imp_le)
    then have "power_int 2 (d - 1) \<le> x"
      unfolding x d_def by (simp add: power_int_diff)
    then show ?thesis using False by (simp add: flog2_def q d_def)
  qed
qed

lemma fl_round_exact:
  assumes x: "x = of_int m * power_int 2 k"
    and m: "\<bar>m\<bar> < 2 ^ prec fm" and k: "emin fm \<le> k"
    and big: "\<bar>x\<bar> < power_int 2 (emax fm)"
  shows "fl_round fm x = Some x"
proof (cases "x = 0")
  case True
  then show ?thesis by (simp add: fl_round_def)
next
  case False
  define e0 where "e0 = flog2 \<bar>x\<bar>"
  define e where "e = max (e0 - (int (prec fm) - 1)) (emin fm)"
  have "power_int 2 e0 \<le> \<bar>x\<bar>" unfolding e0_def using False by (intro flog2_le) simp
  also have "\<bar>x\<bar> = of_int \<bar>m\<bar> * power_int 2 k"
    unfolding x by (simp add: abs_mult power_int_abs)
  also have "\<dots> < of_int (2 ^ prec fm) * power_int 2 k"
    using m by (intro mult_strict_right_mono) (simp_all only: of_int_less_iff two_powi_pos)
  also have "\<dots> = power_int 2 (int (prec fm) + k)"
    by (simp add: two_powi_split)
  finally have lt: "power_int (2::rat) e0 < power_int 2 (int (prec fm) + k)" .
  have "e0 < int (prec fm) + k"
  proof (rule ccontr)
    assume "\<not> e0 < int (prec fm) + k"
    then have "int (prec fm) + k \<le> e0" by simp
    then have "power_int (2::rat) (int (prec fm) + k) \<le> power_int 2 e0"
      by (rule power_int_increasing) simp
    with lt show False by simp
  qed
  then have ek: "e \<le> k" using k by (simp add: e_def)
  then have "k = e + int (nat (k - e))" by simp
  then have "power_int (2::rat) k = power_int 2 e * 2 ^ nat (k - e)"
    by (metis two_powi_split power_int_of_nat)
  then have q: "x / power_int 2 e = of_int (m * 2 ^ nat (k - e))"
    unfolding x using two_powi_pos [of e] by simp
  have y: "of_int (rne (x / power_int 2 e)) * power_int 2 e = x"
    unfolding q rne_of_int using q two_powi_pos [of e] by (simp add: field_simps)
  show ?thesis
    using False big y unfolding fl_round_def e0_def [symmetric] e_def [symmetric]
    by (simp add: Let_def)
qed

lemma masked_bounds:
  "0 \<le> uint ((w :: 'a::len word) AND (push_bit n 1 - 1))
   \<and> uint (w AND (push_bit n 1 - 1)) < 2 ^ n"
proof -
  have "w AND (push_bit n 1 - 1) = take_bit n w"
    by (simp add: take_bit_eq_mask mask_eq_exp_minus_1)
  then show ?thesis by (simp add: unsigned_take_bit_eq take_bit_int_less_exp)
qed

lemma powi_lt_emax64: "\<bar>x\<bar> < 2 ^ 64 \<Longrightarrow> \<bar>x :: rat\<bar> < power_int 2 (emax binary64)"
proof -
  assume "\<bar>x\<bar> < 2 ^ 64"
  moreover have "(2::rat) ^ 64 \<le> power_int 2 (emax binary64)"
    by (simp add: binary64_def)
  ultimately show ?thesis by (rule less_le_trans)
qed

lemma powi_lt_emax32: "\<bar>x\<bar> < 2 ^ 64 \<Longrightarrow> \<bar>x :: rat\<bar> < power_int 2 (emax binary32)"
proof -
  assume "\<bar>x\<bar> < 2 ^ 64"
  moreover have "(2::rat) ^ 64 \<le> power_int 2 (emax binary32)"
    by (simp add: binary32_def)
  ultimately show ?thesis by (rule less_le_trans)
qed

lemma scaled_small:
  fixes m :: int
  assumes "\<bar>m\<bar> < 2 ^ p" "p \<le> 64" "k \<le> 0"
  shows "\<bar>of_int m * power_int (2::rat) k\<bar> < 2 ^ 64"
proof -
  have "power_int (2::rat) k \<le> power_int 2 0" using assms(3) by (intro power_int_increasing) simp_all
  then have k1: "power_int (2::rat) k \<le> 1" by simp
  have "\<bar>of_int m * power_int (2::rat) k\<bar> = of_int \<bar>m\<bar> * power_int 2 k"
    by (simp add: abs_mult power_int_abs)
  also have "\<dots> \<le> of_int \<bar>m\<bar> * 1"
    using k1 by (intro mult_left_mono) simp_all
  also have "\<dots> < of_int (2 ^ p)" using assms(1) by (simp only: mult_1_right of_int_less_iff)
  also have "\<dots> = 2 ^ p" by simp
  also have "\<dots> \<le> (2::rat) ^ 64" using assms(2) by (rule power_increasing) simp
  finally show ?thesis .
qed

lemma exact64:
  assumes "\<bar>m\<bar> < 2 ^ 53" "- 1074 \<le> k" "k \<le> 0"
  shows "fl_round binary64 (of_int m * power_int 2 k) = Some (of_int m * power_int 2 k)"
proof (rule fl_round_exact [OF refl])
  show "\<bar>m\<bar> < 2 ^ prec binary64" using assms(1) by (simp add: binary64_def)
  show "emin binary64 \<le> k" using assms(2) by (simp add: binary64_def)
  show "\<bar>of_int m * power_int 2 k\<bar> < power_int (2::rat) (emax binary64)"
    by (rule powi_lt_emax64, rule scaled_small [OF assms(1) _ assms(3)]) simp
qed

lemma exact32:
  assumes "\<bar>m\<bar> < 2 ^ 24" "- 149 \<le> k" "k \<le> 0"
  shows "fl_round binary32 (of_int m * power_int 2 k) = Some (of_int m * power_int 2 k)"
proof (rule fl_round_exact [OF refl])
  show "\<bar>m\<bar> < 2 ^ prec binary32" using assms(1) by (simp add: binary32_def)
  show "emin binary32 \<le> k" using assms(2) by (simp add: binary32_def)
  show "\<bar>of_int m * power_int 2 k\<bar> < power_int (2::rat) (emax binary32)"
    by (rule powi_lt_emax32, rule scaled_small [OF assms(1) _ assms(3)]) simp
qed

lemma Float64_value:
  "Float64 src s =
     (Some (of_int (uint (fst (u64 src s) AND (push_bit 53 1 - 1))) * power_int 2 (- 53)),
      snd (u64 src s))"
proof -
  define m where "m = uint (fst (u64 src s) AND (push_bit 53 1 - 1))"
  have m: "\<bar>m\<bar> < 2 ^ 53" using masked_bounds [of "fst (u64 src s)" 53] by (simp add: m_def)
  have a: "fl_round binary64 (of_int m) = Some (of_int m)"
    using exact64 [OF m, of 0] by simp
  have b: "fl_round binary64 (of_int m * power_int 2 (- 53)) = Some (of_int m * power_int 2 (- 53))"
    by (rule exact64 [OF m]) simp_all
  show ?thesis
    unfolding Float64_def f_of_int_def f_mul_def
    by (simp only: case_prod_beta a [unfolded m_def] b [unfolded m_def] bind.bind_lunit)
qed

lemma Float32_value:
  "Float32 src s =
     (Some (of_int (uint (fst (u32 src s) AND (push_bit 24 1 - 1))) * power_int 2 (- 24)),
      snd (u32 src s))"
proof -
  define m where "m = uint (fst (u32 src s) AND (push_bit 24 1 - 1))"
  have m: "\<bar>m\<bar> < 2 ^ 24" using masked_bounds [of "fst (u32 src s)" 24] by (simp add: m_def)
  have a: "fl_round binary32 (of_int m) = Some (of_int m)"
    using exact32 [OF m, of 0] by simp
  have b: "fl_round binary32 (of_int m * power_int 2 (- 24)) = Some (of_int m * power_int 2 (- 24))"
    by (rule exact32 [OF m]) simp_all
  show ?thesis
    unfolding Float32_def f_of_int_def f_mul_def
    by (simp only: case_prod_beta a [unfolded m_def] b [unfolded m_def] bind.bind_lunit)
qed

lemma unit_interval:
  "0 \<le> (of_int (uint ((w :: 'a::len word) AND (push_bit n 1 - 1))) :: rat) * power_int 2 (- int n)
   \<and> (of_int (uint (w AND (push_bit n 1 - 1))) :: rat) * power_int 2 (- int n) < 1"
proof -
  define m where "m = uint (w AND (push_bit n 1 - 1))"
  have m: "0 \<le> m" "m < 2 ^ n" using masked_bounds [of w n] by (simp_all add: m_def)
  have "(of_int m :: rat) < of_int (2 ^ n)" using m(2) by (simp only: of_int_less_iff)
  then have "(of_int m :: rat) * power_int 2 (- int n) < 2 ^ n * power_int 2 (- int n)"
    by (intro mult_strict_right_mono) (simp_all add: two_powi_pos)
  also have "\<dots> = 1" by (simp add: power_int_minus)
  finally have "(of_int m :: rat) * power_int 2 (- int n) < 1" .
  moreover have "0 \<le> (of_int m :: rat) * power_int 2 (- int n)"
    using m(1) two_powi_pos [of "- int n"] by (intro mult_nonneg_nonneg) simp_all
  ultimately show ?thesis unfolding m_def by simp
qed

text \<open>
  C4. For the raw word \<open>w\<close> it draws, \<^verbatim>\<open>Float64()\<close> is \<open>(w & (2^53 - 1)) * 2^-53\<close> and
  \<^verbatim>\<open>Float32()\<close> is \<open>(w & (2^24 - 1)) * 2^-24\<close>, without any rounding error, and both
  values lie in \<open>[0, 1)\<close>: they are never 1.
\<close>

theorem float_generators_in_unit_interval:
  "Float64 src s =
     (Some (of_int (uint (fst (u64 src s) AND (push_bit 53 1 - 1))) * power_int 2 (- 53)),
      snd (u64 src s))
   \<and> Float32 src s =
     (Some (of_int (uint (fst (u32 src s) AND (push_bit 24 1 - 1))) * power_int 2 (- 24)),
      snd (u32 src s))
   \<and> 0 \<le> (of_int (uint (fst (u64 src s) AND (push_bit 53 1 - 1))) :: rat) * power_int 2 (- 53)
   \<and> (of_int (uint (fst (u64 src s) AND (push_bit 53 1 - 1))) :: rat) * power_int 2 (- 53) < 1
   \<and> 0 \<le> (of_int (uint (fst (u32 src s) AND (push_bit 24 1 - 1))) :: rat) * power_int 2 (- 24)
   \<and> (of_int (uint (fst (u32 src s) AND (push_bit 24 1 - 1))) :: rat) * power_int 2 (- 24) < 1"
  using Float64_value [of src s] Float32_value [of src s]
    unit_interval [of "fst (u64 src s)" 53] unit_interval [of "fst (u32 src s)" 24]
  by simp

lemma round_zero: "fl_round fm 0 = Some 0"
  by (simp add: fl_round_def)

lemma round_one: "fl_round binary64 1 = Some 1"
  using exact64 [of 1 0] by simp

lemma f_of_int_exact:
  assumes "\<bar>v\<bar> \<le> 2 ^ 53"
  shows "fl_round binary64 (of_int v) = Some (of_int v)"
proof (cases "\<bar>v\<bar> < 2 ^ 53")
  case True
  then show ?thesis using exact64 [of v 0] by simp
next
  case False
  then have v: "\<bar>v\<bar> = 2 ^ 53" using assms by simp
  have "(of_int v :: rat) = of_int (sgn v) * power_int 2 53"
  proof -
    have "v = sgn v * \<bar>v\<bar>" by (simp add: sgn_mult_abs)
    then have "v = sgn v * 2 ^ 53" unfolding v .
    then have "(of_int v :: rat) = of_int (sgn v * 2 ^ 53)" by simp
    then show ?thesis by simp
  qed
  moreover have "\<bar>sgn v\<bar> < 2 ^ prec binary64"
    by (simp add: binary64_def abs_sgn_eq)
  moreover have "emin binary64 \<le> 53" by (simp add: binary64_def)
  moreover have "\<bar>of_int v :: rat\<bar> < power_int 2 (emax binary64)"
  proof -
    have "\<bar>of_int v :: rat\<bar> = of_int \<bar>v\<bar>" by simp
    also have "\<dots> = 2 ^ 53" unfolding v by simp
    also have "\<dots> < power_int (2::rat) (emax binary64)" by (simp add: binary64_def)
    finally show ?thesis .
  qed
  ultimately show ?thesis by (rule fl_round_exact)
qed

lemma Jitter_zero:
  "Jitter T conv fused src v 0 s =
     (f_to_int conv T (do { fv \<leftarrow> f_of_int binary64 v; f_mul binary64 fv 1 }),
      snd (u64 src s))"
proof -
  define m where "m = uint (fst (u64 src s) AND (push_bit 53 1 - 1))"
  define r :: rat where "r = of_int m * power_int 2 (- 53)"
  have m: "0 \<le> m" "m < 2 ^ 53" using masked_bounds [of "fst (u64 src s)" 53] by (simp_all add: m_def)
  have F: "Float64 src s = (Some r, snd (u64 src s))"
    unfolding r_def m_def by (rule Float64_value)
  have r2: "2 * r = of_int m * power_int 2 (- 52)" unfolding r_def by simp
  have a1: "fl_round binary64 (2 * r) = Some (2 * r)"
    unfolding r2 using m by (intro exact64) simp_all
  have r3: "2 * r - 1 = of_int (m - 2 ^ 52) * power_int 2 (- 52)"
    unfolding r2 by (simp add: algebra_simps)
  have a2: "fl_round binary64 (2 * r - 1) = Some (2 * r - 1)"
    unfolding r3 using m by (intro exact64) simp_all
  show ?thesis
    unfolding Jitter_def F
    by (simp add: f_mul_def f_sub_def f_add_def a1 a2 round_zero round_one)
qed

text \<open>
  With factor 0, \<^verbatim>\<open>Jitter\<close> returns \<open>v\<close> for every value \<open>v\<close> of \<^verbatim>\<open>T\<close> that \<^verbatim>\<open>float64\<close>
  holds exactly, after one 64-bit draw; every \<open>v\<close> with \<open>\<bar>v\<bar> \<le> 2^53\<close> is one, so every
  value of a type of at most 32 bits.
\<close>

lemma jitter_zero_factor_exact:
  "min_of T \<le> v \<and> v \<le> max_of T \<and> fl_round binary64 (of_int v) = Some (of_int v) \<longrightarrow>
     Jitter T conv fused src v 0 s = (v, snd (u64 src s))"
proof (rule impI, elim conjE)
  assume lo: "min_of T \<le> v" and hi: "v \<le> max_of T"
    and fv: "fl_round binary64 (of_int v) = Some (of_int v)"
  have "f_to_int conv T (Some (of_int v)) = v"
    using lo hi by (simp add: f_to_int_def)
  then show "Jitter T conv fused src v 0 s = (v, snd (u64 src s))"
    unfolding Jitter_zero by (simp add: f_of_int_def f_mul_def fv)
qed

lemma jitter_zero_factor_exact_up_to_2_53:
  "min_of T \<le> v \<and> v \<le> max_of T \<and> \<bar>v\<bar> \<le> 2 ^ 53 \<longrightarrow>
     Jitter T conv fused src v 0 s = (v, snd (u64 src s))"
  using jitter_zero_factor_exact [of T v conv fused src s] f_of_int_exact [of v] by simp

lemma jitter_zero_factor_exact_examples:
  "Jitter (Signed 64) conv False replay 100 0 [5] = (100, [])
   \<and> Jitter (Unsigned 8) conv True replay 255 0 [5] = (255, [])
   \<and> Jitter (Signed 64) conv False replay 1152921504606846976 0 [5] = (1152921504606846976, [])"
proof -
  have a: "min_of (Signed 64) \<le> 100 \<and> 100 \<le> max_of (Signed 64) \<and> \<bar>100 :: int\<bar> \<le> 2 ^ 53"
    by simp
  have b: "min_of (Unsigned 8) \<le> 255 \<and> 255 \<le> max_of (Unsigned 8) \<and> \<bar>255 :: int\<bar> \<le> 2 ^ 53"
    by simp
  have r: "fl_round binary64 1152921504606846976 = Some 1152921504606846976" by code_simp
  have c: "min_of (Signed 64) \<le> 1152921504606846976
      \<and> 1152921504606846976 \<le> max_of (Signed 64)
      \<and> fl_round binary64 (of_int 1152921504606846976) = Some (of_int 1152921504606846976)"
    using r by simp
  have s: "snd (u64 replay [5]) = []" by (simp add: replay_def)
  show ?thesis
    using jitter_zero_factor_exact_up_to_2_53 [of "Signed 64" 100 conv False replay "[5]", THEN mp, OF a]
      jitter_zero_factor_exact_up_to_2_53 [of "Unsigned 8" 255 conv True replay "[5]", THEN mp, OF b]
      jitter_zero_factor_exact [of "Signed 64" 1152921504606846976 conv False replay "[5]", THEN mp, OF c]
    by (simp only: s simp_thms)
qed

text \<open>
  C9. \<^verbatim>\<open>Jitter(v, 0)\<close> is to return exactly \<open>v\<close>, the only value of the interval
  \<open>[v - 0*v, v + 0*v]\<close> that the comment of \<^verbatim>\<open>Jitter\<close> names. The code does not for a
  64-bit \<open>v\<close> that \<^verbatim>\<open>float64\<close> does not hold: \<^verbatim>\<open>float64(v)\<close> rounds \<open>v\<close> to 53 bits, so
  \<^verbatim>\<open>Jitter(int64(2^53 + 1), 0)\<close> is \<open>2^53\<close>, with or without fused operations and
  whatever the draw; and \<^verbatim>\<open>Jitter(int64(2^63 - 1), 0)\<close> converts \<open>2^63\<close>, which \<^verbatim>\<open>int64\<close>
  cannot hold, so the result is the value the implementation yields for it.
\<close>

theorem jitter_zero_factor_rounds_large_values:
  "Jitter (Signed 64) conv fused src 9007199254740993 0 s = (9007199254740992, snd (u64 src s))
   \<and> Jitter (Signed 64) conv fused src 9223372036854775807 0 s
       = (conv (Signed 64) (Some 9223372036854775808), snd (u64 src s))
   \<and> Jitter (Signed 64) conv False replay 9007199254740993 0 [5] = (9007199254740992, [])"
proof -
  have a: "fl_round binary64 9007199254740993 = Some 9007199254740992" by code_simp
  have b: "fl_round binary64 9007199254740992 = Some 9007199254740992" by code_simp
  have c: "fl_round binary64 9223372036854775807 = Some 9223372036854775808" by code_simp
  have d: "fl_round binary64 9223372036854775808 = Some 9223372036854775808" by code_simp
  have s: "snd (u64 replay [5]) = []" by (simp add: replay_def)
  show ?thesis
    unfolding Jitter_zero by (simp add: f_of_int_def f_mul_def f_to_int_def a b c d s)
qed

section \<open>Unsigned sampling with a zero bound\<close>

text \<open>
  C10. With \<open>n = 0\<close> the test \<^verbatim>\<open>n&(n-1) == 0\<close> holds, so \<^verbatim>\<open>Uint64nUint32n\<close> and
  \<^verbatim>\<open>Uint64n\<close> take the mask path: they return, without a panic and without a division,
  the one raw word they draw, masked with \<open>0 - 1\<close>, which is all ones and leaves the
  word as it is.
\<close>

theorem unsigned_zero_bound_full_range:
  "Uint64nUint32n src 0 s = Some (Inr (fst (u32 src s) AND (0 - 1)), snd (u32 src s))
   \<and> Uint64nUint32n src 0 s = Some (Inr (fst (u32 src s)), snd (u32 src s))
   \<and> Uint64n src 0 s = Some (Inr (fst (u64 src s) AND (0 - 1)), snd (u64 src s))
   \<and> Uint64n src 0 s = Some (Inr (fst (u64 src s)), snd (u64 src s))"
  by (simp add: Uint64nUint32n_def Uint64n_def split: prod.split)

end
